theory Spec2Isabelle
  imports Main "HOL-Library.Multiset"
begin

section \<open>Players and their order\<close>

text \<open>
  Modelled from the spec: the header declaring \<open>Player\<close> and its comparison operators is
  not among the sources. The sources read the field \<open>level_\<close> (here \<open>level\<close>) and compare
  players with \<open><\<close> and \<open>></\<close>; the spec says that entities are ordered by their numeric
  level. A player is therefore a record of a name and a level, and both comparisons look
  at the level only. Levels are unsigned sizes that are only compared and copied, never
  computed with, so \<open>nat\<close> is exact. \<open>newPlayer\<close> stands for the constructor.
\<close>

record Player =
  name :: string
  level :: nat

definition newPlayer :: "string \<Rightarrow> nat \<Rightarrow> Player" where
  "newPlayer n l = \<lparr>name = n, level = l\<rparr>"

definition player_less :: "Player \<Rightarrow> Player \<Rightarrow> bool" where
  "player_less a b = (level a < level b)"

definition player_greater :: "Player \<Rightarrow> Player \<Rightarrow> bool" where
  "player_greater a b = (level a > level b)"

section \<open>Errors\<close>

text \<open>
  \<open>StreamExhausted\<close> is the \<open>std::runtime_error\<close> thrown by \<open>nextPlayer\<close>. The other three
  stand for undefined behaviour of the C++ library that the code can reach: \<open>front()\<close> of an
  empty vector, \<open>back()\<close> (or \<open>pop_heap\<close>, \<open>pop_back\<close>) on an empty vector, and \<open>%\<close> with a
  zero divisor.
\<close>

datatype error = StreamExhausted | FrontOfEmpty | BackOfEmpty | ModByZero

definition front :: "Player list \<Rightarrow> error + Player" where
  "front xs = (case xs of [] \<Rightarrow> Inl FrontOfEmpty | x # _ \<Rightarrow> Inr x)"

section \<open>Heaps in a contiguous range\<close>

text \<open>
  The heap property of the C++ library for a comparison \<open>cmp\<close>: no element compares
  \<open>cmp\<close>-below its child, the parent of position \<open>i > 0\<close> being \<open>(i - 1) div 2\<close>. With
  \<open>operator<\<close> this is a max-heap, with \<open>std::greater\<close> a min-heap.
\<close>

definition is_heap_by :: "(Player \<Rightarrow> Player \<Rightarrow> bool) \<Rightarrow> Player list \<Rightarrow> bool" where
  "is_heap_by cmp xs =
     list_all (\<lambda>i. \<not> cmp (xs ! ((i - 1) div 2)) (xs ! i)) [1..<length xs]"

definition is_min_heap :: "Player list \<Rightarrow> bool" where
  "is_min_heap xs = is_heap_by player_greater xs"

definition is_max_heap :: "Player list \<Rightarrow> bool" where
  "is_max_heap xs = is_heap_by player_less xs"

definition swap :: "Player list \<Rightarrow> nat \<Rightarrow> nat \<Rightarrow> Player list" where
  "swap xs i j = xs[i := xs ! j, j := xs ! i]"

section \<open>Online::replaceMin\<close>

text \<open>
  The \<open>while (true)\<close> loop of \<open>replaceMin\<close>. The range \<open>[first, last)\<close> is the list \<open>h\<close>,
  the iterator \<open>current\<close> is its distance \<open>cur\<close> from \<open>first\<close>. Both reads of a child are
  guarded by the bound check in front of them, as in the source. The child indices stay
  below twice the size of a vector, so they do not wrap.
\<close>

definition smallest_of :: "Player list \<Rightarrow> nat \<Rightarrow> nat" where
  "smallest_of h cur =
     (let leftChildIdx = 2 * cur + 1;
          rightChildIdx = 2 * cur + 2;
          heapSize = length h;
          smallest = cur;
          smallest = (if leftChildIdx < heapSize \<and> player_less (h ! leftChildIdx) (h ! smallest)
                      then leftChildIdx else smallest);
          smallest = (if rightChildIdx < heapSize \<and> player_less (h ! rightChildIdx) (h ! smallest)
                      then rightChildIdx else smallest)
      in smallest)"

function percolateDown :: "Player list \<Rightarrow> nat \<Rightarrow> Player list" where
  "percolateDown h cur =
     (let smallest = smallest_of h cur
      in if smallest = cur then h
         else percolateDown (swap h cur smallest) smallest)"
  by pat_completeness auto

termination
proof (relation "measure (\<lambda>(h, cur). length h - cur)")
  show "wf (measure (\<lambda>(h, cur). length h - cur))" by simp
next
  fix h :: "Player list" and cur x :: nat
  assume "x = smallest_of h cur" and "x \<noteq> cur"
  then have "cur < x \<and> x < length h"
    by (auto simp: smallest_of_def Let_def split: if_splits)
  then show "((swap h cur x, x), (h, cur)) \<in> measure (\<lambda>(h, cur). length h - cur)"
    by (simp add: swap_def diff_less_mono2)
qed

declare percolateDown.simps [simp del]

definition replaceMin :: "Player list \<Rightarrow> Player \<Rightarrow> Player list" where
  "replaceMin h target = (if h = [] then h else percolateDown (h[0 := target]) 0)"

text \<open>
  The same loop with no termination argument built in: the least fixed point in the
  option monad, where a run that never leaves the loop is \<open>None\<close>.
\<close>

partial_function (option) percolateLoop :: "Player list \<Rightarrow> nat \<Rightarrow> Player list option" where
  "percolateLoop h cur =
     (let smallest = smallest_of h cur
      in if smallest = cur then Some h
         else percolateLoop (swap h cur smallest) smallest)"

definition replaceMinLoop :: "Player list \<Rightarrow> Player \<Rightarrow> Player list option" where
  "replaceMinLoop h target = (if h = [] then Some h else percolateLoop (h[0 := target]) 0)"

section \<open>The sequential source: VectorPlayerStream\<close>

text \<open>
  The two members \<open>players_\<close> and \<open>index_\<close>. \<open>remaining\<close> subtracts two values of type
  \<open>size_t\<close> (64 bits), which wraps modulo \<open>2 ^ 64\<close>; the wrap is written out. \<open>nextPlayer\<close> throws
  when the index has reached the size, and otherwise returns the player at the index
  together with the advanced stream.
\<close>

record VectorPlayerStream =
  stream_players :: "Player list"
  stream_index :: nat

definition newVectorPlayerStream :: "Player list \<Rightarrow> VectorPlayerStream" where
  "newVectorPlayerStream ps = \<lparr>stream_players = ps, stream_index = 0\<rparr>"

definition nextPlayer :: "VectorPlayerStream \<Rightarrow> error + Player \<times> VectorPlayerStream" where
  "nextPlayer s =
     (if stream_index s \<ge> length (stream_players s) then Inl StreamExhausted
      else Inr (stream_players s ! stream_index s, s\<lparr>stream_index := stream_index s + 1\<rparr>))"

definition remaining :: "VectorPlayerStream \<Rightarrow> nat" where
  "remaining s = (length (stream_players s) + 2 ^ 64 - stream_index s) mod 2 ^ 64"

section \<open>Results\<close>

text \<open>
  \<open>RankingResult\<close> with its members \<open>top_\<close> and \<open>cutoffs_\<close>; the \<open>unordered_map\<close> is a
  partial map. The member \<open>elapsed_\<close> is a wall-clock measurement and is left out.
\<close>

record RankingResult =
  result_top :: "Player list"
  result_cutoffs :: "nat \<rightharpoonup> nat"

section \<open>Contracts of the C++ library algorithms\<close>

text \<open>
  \<open>std::sort\<close>, \<open>std::make_heap\<close>, \<open>std::pop_heap\<close> and \<open>std::nth_element\<close> belong to the
  C++ library, not to the program. The program's functions take them as parameters, and
  the theorems assume of them what the C++ standard guarantees: each permutes its range;
  \<open>sort\<close> leaves it ascending; \<open>make_heap\<close> leaves a heap; \<open>pop_heap\<close>, on a non-empty heap,
  moves the first element to the last position and leaves a heap in front of it;
  \<open>nth_element\<close> leaves no element from position \<open>k\<close> on below an element in front of
  position \<open>k\<close>.
\<close>

definition sort_contract :: "(Player list \<Rightarrow> Player list) \<Rightarrow> bool" where
  "sort_contract std_sort \<longleftrightarrow>
     (\<forall>xs. mset (std_sort xs) = mset xs \<and> sorted (map level (std_sort xs)))"

definition make_heap_contract ::
  "(Player \<Rightarrow> Player \<Rightarrow> bool) \<Rightarrow> (Player list \<Rightarrow> Player list) \<Rightarrow> bool" where
  "make_heap_contract cmp std_make_heap \<longleftrightarrow>
     (\<forall>xs. mset (std_make_heap xs) = mset xs \<and> is_heap_by cmp (std_make_heap xs))"

definition pop_heap_contract ::
  "(Player \<Rightarrow> Player \<Rightarrow> bool) \<Rightarrow> (Player list \<Rightarrow> Player list) \<Rightarrow> bool" where
  "pop_heap_contract cmp std_pop_heap \<longleftrightarrow>
     (\<forall>xs. xs \<noteq> [] \<and> is_heap_by cmp xs \<longrightarrow>
        mset (std_pop_heap xs) = mset xs \<and> last (std_pop_heap xs) = hd xs \<and>
        is_heap_by cmp (butlast (std_pop_heap xs)))"

definition nth_element_contract :: "(Player list \<Rightarrow> nat \<Rightarrow> Player list) \<Rightarrow> bool" where
  "nth_element_contract std_nth_element \<longleftrightarrow>
     (\<forall>xs k. k \<le> length xs \<longrightarrow>
        mset (std_nth_element xs k) = mset xs \<and>
        (\<forall>i j. i < k \<and> k \<le> j \<and> j < length xs \<longrightarrow>
           level (std_nth_element xs k ! i) \<le> level (std_nth_element xs k ! j)))"

text \<open>
  Reference implementations that meet the contracts, for running the program on concrete
  inputs: a stable insertion sort by level; an ascending list is a min-heap and a
  descending one a max-heap.
\<close>

definition ref_sort :: "Player list \<Rightarrow> Player list" where
  "ref_sort xs = sort_key level xs"

definition ref_make_min_heap :: "Player list \<Rightarrow> Player list" where
  "ref_make_min_heap xs = sort_key level xs"

definition ref_make_max_heap :: "Player list \<Rightarrow> Player list" where
  "ref_make_max_heap xs = rev (sort_key level xs)"

definition ref_pop_heap :: "Player list \<Rightarrow> Player list" where
  "ref_pop_heap xs = (case xs of [] \<Rightarrow> [] | x # r \<Rightarrow> ref_make_max_heap r @ [x])"

definition ref_nth_element :: "Player list \<Rightarrow> nat \<Rightarrow> Player list" where
  "ref_nth_element xs k = sort_key level xs"

section \<open>Online::rankIncoming\<close>

text \<open>
  The local variables \<open>topPlayers\<close>, \<open>cutoffs\<close> and \<open>playerCount\<close> of \<open>rankIncoming\<close>, which
  live across the iterations of its loop.
\<close>

record RankState =
  st_topPlayers :: "Player list"
  st_cutoffs :: "nat \<rightharpoonup> nat"
  st_playerCount :: nat

text \<open>
  The first statement of the loop body after the fetch: append while the buffer is below
  the reporting interval, and heapify when it reaches it; otherwise compare with
  \<open>front()\<close> and call \<open>replaceMin\<close> when the new player is strictly greater.
\<close>

definition updateLeaders ::
  "(Player list \<Rightarrow> Player list) \<Rightarrow> nat \<Rightarrow> Player \<Rightarrow> Player list \<Rightarrow> error + Player list" where
  "updateLeaders std_make_heap reporting_interval currentPlayer tp =
     (if length tp < reporting_interval then
        (let tp1 = tp @ [currentPlayer]
         in Inr (if length tp1 = reporting_interval then std_make_heap tp1 else tp1))
      else
        (case front tp of
           Inl e \<Rightarrow> Inl e
         | Inr f \<Rightarrow> Inr (if player_greater currentPlayer f then replaceMin tp currentPlayer else tp)))"

text \<open>The second statement: at a multiple of the interval, store the level of \<open>front()\<close>.\<close>

definition recordCutoff ::
  "nat \<Rightarrow> nat \<Rightarrow> Player list \<Rightarrow> (nat \<rightharpoonup> nat) \<Rightarrow> error + (nat \<rightharpoonup> nat)" where
  "recordCutoff reporting_interval cnt tp cmap =
     (if reporting_interval = 0 then Inl ModByZero
      else if cnt mod reporting_interval = 0 then
        (case front tp of Inl e \<Rightarrow> Inl e | Inr f \<Rightarrow> Inr (cmap(cnt \<mapsto> level f)))
      else Inr cmap)"

definition rankStep ::
  "(Player list \<Rightarrow> Player list) \<Rightarrow> nat \<Rightarrow> Player \<Rightarrow> RankState \<Rightarrow> error + RankState" where
  "rankStep std_make_heap reporting_interval currentPlayer st =
     (let cnt = st_playerCount st + 1
      in case updateLeaders std_make_heap reporting_interval currentPlayer (st_topPlayers st) of
           Inl e \<Rightarrow> Inl e
         | Inr tp \<Rightarrow>
             (case recordCutoff reporting_interval cnt tp (st_cutoffs st) of
                Inl e \<Rightarrow> Inl e
              | Inr cmap \<Rightarrow> Inr \<lparr>st_topPlayers = tp, st_cutoffs = cmap, st_playerCount = cnt\<rparr>))"

text \<open>
  The loop \<open>while (stream.remaining() > 0)\<close>. An exception of \<open>nextPlayer\<close> would leave
  the function, as would undefined behaviour in the body.
\<close>

function rankLoop ::
  "(Player list \<Rightarrow> Player list) \<Rightarrow> nat \<Rightarrow> VectorPlayerStream \<Rightarrow> RankState
     \<Rightarrow> error + VectorPlayerStream \<times> RankState" where
  "rankLoop std_make_heap reporting_interval s st =
     (if remaining s > 0 then
        (case nextPlayer s of
           Inl e \<Rightarrow> Inl e
         | Inr (currentPlayer, s1) \<Rightarrow>
             (case rankStep std_make_heap reporting_interval currentPlayer st of
                Inl e \<Rightarrow> Inl e
              | Inr st1 \<Rightarrow> rankLoop std_make_heap reporting_interval s1 st1))
      else Inr (s, st))"
  by pat_completeness auto

termination
proof (relation "measure (\<lambda>(mh, r, s, st). length (stream_players s) - stream_index s)")
  show "wf (measure (\<lambda>(mh, r, s, st). length (stream_players s) - stream_index s))" by simp
next
  fix std_make_heap :: "Player list \<Rightarrow> Player list" and reporting_interval :: nat
    and s :: VectorPlayerStream and st :: RankState and x2 x y and st1 :: RankState
  assume "nextPlayer s = Inr x2" and "(x, y) = x2"
  then have "stream_index s < length (stream_players s)"
    and "y = s\<lparr>stream_index := stream_index s + 1\<rparr>"
    by (auto simp: nextPlayer_def split: if_splits)
  then show "((std_make_heap, reporting_interval, y, st1), (std_make_heap, reporting_interval, s, st))
      \<in> measure (\<lambda>(mh, r, s, st). length (stream_players s) - stream_index s)"
    by (simp add: diff_less_mono2)
qed

declare rankLoop.simps [simp del]

text \<open>
  After the loop: the entry for the final count if the map has none, then the sort. The
  stream is passed by reference, so it is returned in the state the loop left it in.
\<close>

definition finalCutoff :: "RankState \<Rightarrow> error + (nat \<rightharpoonup> nat)" where
  "finalCutoff st =
     (if st_cutoffs st (st_playerCount st) = None then
        (case front (st_topPlayers st) of
           Inl e \<Rightarrow> Inl e
         | Inr f \<Rightarrow> Inr ((st_cutoffs st)(st_playerCount st \<mapsto> level f)))
      else Inr (st_cutoffs st))"

definition rankIncoming ::
  "(Player list \<Rightarrow> Player list) \<Rightarrow> (Player list \<Rightarrow> Player list) \<Rightarrow> VectorPlayerStream \<Rightarrow> nat
     \<Rightarrow> error + RankingResult \<times> VectorPlayerStream" where
  "rankIncoming std_make_heap std_sort stream reporting_interval =
     (case rankLoop std_make_heap reporting_interval stream
             \<lparr>st_topPlayers = [], st_cutoffs = Map.empty, st_playerCount = 0\<rparr> of
        Inl e \<Rightarrow> Inl e
      | Inr (s, st) \<Rightarrow>
          (case finalCutoff st of
             Inl e \<Rightarrow> Inl e
           | Inr cmap \<Rightarrow> Inr (\<lparr>result_top = std_sort (st_topPlayers st), result_cutoffs = cmap\<rparr>, s)))"

section \<open>Offline::heapRank and Offline::quickSelectRank\<close>

text \<open>
  The extraction loop of \<open>heapRank\<close>, counted by the iterations still to run. \<open>pop_heap\<close>,
  \<open>back()\<close> and \<open>pop_back()\<close> on an empty vector are undefined.
\<close>

fun extractTop ::
  "(Player list \<Rightarrow> Player list) \<Rightarrow> nat \<Rightarrow> Player list \<Rightarrow> Player list
     \<Rightarrow> error + Player list \<times> Player list" where
  "extractTop std_pop_heap 0 players topPlayers = Inr (players, topPlayers)"
| "extractTop std_pop_heap (Suc n) players topPlayers =
     (if players = [] then Inl BackOfEmpty
      else (let popped = std_pop_heap players
            in extractTop std_pop_heap n (butlast popped) (topPlayers @ [last popped])))"

text \<open>Both functions return the result together with the caller's vector as they leave it.\<close>

definition heapRank ::
  "(Player list \<Rightarrow> Player list) \<Rightarrow> (Player list \<Rightarrow> Player list) \<Rightarrow> (Player list \<Rightarrow> Player list)
     \<Rightarrow> Player list \<Rightarrow> error + RankingResult \<times> Player list" where
  "heapRank std_make_heap std_pop_heap std_sort players =
     (let heap = std_make_heap players;
          topCount = length heap div 10
      in case extractTop std_pop_heap topCount heap [] of
           Inl e \<Rightarrow> Inl e
         | Inr (rest, topPlayers) \<Rightarrow>
             Inr (\<lparr>result_top = std_sort topPlayers, result_cutoffs = Map.empty\<rparr>, rest))"

text \<open>
  In \<open>quickSelectRank\<close> the position \<open>k = N - N / 10\<close> is at most \<open>N\<close>, so the iterator
  \<open>begin() + k\<close> is in range and no step of the function can fail.
\<close>

definition quickSelectRank ::
  "(Player list \<Rightarrow> nat \<Rightarrow> Player list) \<Rightarrow> (Player list \<Rightarrow> Player list)
     \<Rightarrow> Player list \<Rightarrow> RankingResult \<times> Player list" where
  "quickSelectRank std_nth_element std_sort players =
     (let N = length players;
          k = N - N div 10;
          partitioned = std_nth_element players k;
          topPlayers = drop k partitioned
      in (\<lparr>result_top = std_sort topPlayers, result_cutoffs = Map.empty\<rparr>, partitioned))"

section \<open>Definitions for the statements and their proofs\<close>

text \<open>
  A range that is a min-heap except at position \<open>c\<close>: every position other than the
  children of \<open>c\<close> is not below its parent, and the children of \<open>c\<close> are not below the
  parent of \<open>c\<close>. It is what holds of the range at every iteration of the percolation loop.
\<close>

definition heap_except :: "Player list \<Rightarrow> nat \<Rightarrow> bool" where
  "heap_except h c \<longleftrightarrow>
     (\<forall>i. 0 < i \<and> i < length h \<and> (i - 1) div 2 \<noteq> c \<longrightarrow>
          level (h ! ((i - 1) div 2)) \<le> level (h ! i)) \<and>
     (\<forall>i. 0 < i \<and> i < length h \<and> (i - 1) div 2 = c \<and> 0 < c \<longrightarrow>
          level (h ! ((c - 1) div 2)) \<le> level (h ! i))"

text \<open>
  On a stream whose index has not passed the size, the loop of \<open>rankIncoming\<close> is a fold of
  \<open>rankStep\<close> over the players the stream still holds.
\<close>

fun rankFold ::
  "(Player list \<Rightarrow> Player list) \<Rightarrow> nat \<Rightarrow> Player list \<Rightarrow> RankState \<Rightarrow> error + RankState" where
  "rankFold mh R [] st = Inr st"
| "rankFold mh R (p # ps) st =
     (case rankStep mh R p st of Inl e \<Rightarrow> Inl e | Inr st1 \<Rightarrow> rankFold mh R ps st1)"

text \<open>
  The players a stream has not yet handed out, and the stream after all of them have been
  read.
\<close>

definition pending :: "VectorPlayerStream \<Rightarrow> Player list" where
  "pending s = drop (stream_index s) (stream_players s)"

definition drained :: "VectorPlayerStream \<Rightarrow> VectorPlayerStream" where
  "drained s = s\<lparr>stream_index := length (stream_players s)\<rparr>"

text \<open>
  What holds of the loop state after the players \<open>seen\<close> have been consumed, for a reporting
  interval \<open>R\<close>: the count; the size of the buffer; below \<open>R\<close> players the buffer is the
  players in the order read; from \<open>R\<close> players on it is a min-heap; the players not in the
  buffer are none above a player in it; and the keys recorded so far.
\<close>

definition leaders_inv :: "nat \<Rightarrow> Player list \<Rightarrow> RankState \<Rightarrow> bool" where
  "leaders_inv R seen st \<longleftrightarrow>
     st_playerCount st = length seen \<and>
     length (st_topPlayers st) = min R (length seen) \<and>
     (length seen < R \<longrightarrow> st_topPlayers st = seen) \<and>
     (R \<le> length seen \<longrightarrow> is_min_heap (st_topPlayers st)) \<and>
     (\<exists>dropped. mset seen = mset dropped + mset (st_topPlayers st) \<and>
        (\<forall>b\<in>set (st_topPlayers st). \<forall>d\<in>set dropped. level d \<le> level b)) \<and>
     dom (st_cutoffs st) = {k. 0 < k \<and> k \<le> length seen \<and> R dvd k}"

text \<open>
  \<open>v\<close> is the minimum level of the leader buffer as it is after the first \<open>k\<close> players
  of \<open>ps\<close> have been consumed.
\<close>

definition buffer_minimum_at ::
  "(Player list \<Rightarrow> Player list) \<Rightarrow> nat \<Rightarrow> Player list \<Rightarrow> nat \<Rightarrow> nat \<Rightarrow> bool" where
  "buffer_minimum_at mh R ps k v \<longleftrightarrow>
     (\<exists>st. rankFold mh R (take k ps)
              \<lparr>st_topPlayers = [], st_cutoffs = Map.empty, st_playerCount = 0\<rparr> = Inr st \<and>
           v = Min (level ` set (st_topPlayers st)))"

text \<open>
  The top subset as the spec words it: the \<open>R\<close> highest-levelled players, a tie going to
  the player seen earlier. This definition follows the spec, not the code: a stable sort of
  the reversed stream puts, among equal levels, the later player first, so the last \<open>R\<close>
  of it keep the earlier ones.
\<close>

definition spec_top_first_seen :: "nat \<Rightarrow> Player list \<Rightarrow> Player list" where
  "spec_top_first_seen R ps = drop (length ps - R) (sort_key level (rev ps))"

text \<open>Twelve players, so that the top tenth is one player.\<close>

definition sample_players :: "Player list" where
  "sample_players = map (newPlayer ''p'') [3, 11, 7, 1, 9, 5, 12, 2, 8, 4, 10, 6]"

text \<open>A stream of seven players with two players at level 5.\<close>

definition tie_stream :: "Player list" where
  "tie_stream = [newPlayer ''X'' 2, newPlayer ''Y'' 3, newPlayer ''Y'' 3, newPlayer ''B'' 5,
                 newPlayer ''C'' 5, newPlayer ''E'' 9, newPlayer ''F'' 6]"

text \<open>
  The leader buffer as it is after the first \<open>k\<close> players of \<open>ps\<close> have been consumed
  (empty if the loop has failed by then).
\<close>

definition buffer_after ::
  "(Player list \<Rightarrow> Player list) \<Rightarrow> nat \<Rightarrow> Player list \<Rightarrow> nat \<Rightarrow> Player list" where
  "buffer_after mh R ps k =
     (case rankFold mh R (take k ps)
             \<lparr>st_topPlayers = [], st_cutoffs = Map.empty, st_playerCount = 0\<rparr> of
        Inl e \<Rightarrow> []
      | Inr st \<Rightarrow> st_topPlayers st)"

text \<open>
  A stream of four players whose last player ties the minimum of the full buffer.
\<close>

definition late_tie_stream :: "Player list" where
  "late_tie_stream = [newPlayer ''a'' 2, newPlayer ''b'' 4, newPlayer ''c'' 3, newPlayer ''d'' 3]"

section \<open>Properties of the percolation loop\<close>

lemma smallest_of_cases:
  "smallest_of h cur = cur \<or>
   (smallest_of h cur = 2 * cur + 1 \<and> 2 * cur + 1 < length h) \<or>
   (smallest_of h cur = 2 * cur + 2 \<and> 2 * cur + 2 < length h)"
  by (simp add: smallest_of_def Let_def)

lemma smallest_of_bound:
  "smallest_of h cur \<noteq> cur \<Longrightarrow> cur < smallest_of h cur \<and> smallest_of h cur < length h"
  using smallest_of_cases [of h cur] by auto

lemma length_swap [simp]: "length (swap xs i j) = length xs"
  by (simp add: swap_def)

lemma length_percolateDown [simp]: "length (percolateDown h cur) = length h"
proof (induction h cur rule: percolateDown.induct)
  case (1 h cur)
  show ?case
  proof (cases "smallest_of h cur = cur")
    case True
    then show ?thesis by (subst percolateDown.simps) (simp add: Let_def)
  next
    case False
    then show ?thesis
      using "1.IH" [OF refl False] by (subst percolateDown.simps) (simp add: Let_def)
  qed
qed

lemma mset_swap_players: "i < length xs \<Longrightarrow> j < length xs \<Longrightarrow> mset (swap xs i j) = mset xs"
  unfolding swap_def by (simp add: mset_swap)

lemma mset_percolateDown: "cur < length h \<Longrightarrow> mset (percolateDown h cur) = mset h"
proof (induction h cur rule: percolateDown.induct)
  case (1 h cur)
  show ?case
  proof (cases "smallest_of h cur = cur")
    case True
    then show ?thesis by (subst percolateDown.simps) (simp add: Let_def)
  next
    case False
    then have b: "cur < smallest_of h cur \<and> smallest_of h cur < length h"
      by (rule smallest_of_bound)
    have "mset (percolateDown (swap h cur (smallest_of h cur)) (smallest_of h cur))
          = mset (swap h cur (smallest_of h cur))"
      using "1.IH" [OF refl False] b by simp
    also have "\<dots> = mset h"
      using b "1.prems" by (simp add: mset_swap_players)
    finally show ?thesis
      using False by (subst percolateDown.simps) (simp add: Let_def)
  qed
qed

lemma is_heap_by_iff:
  "is_heap_by cmp xs \<longleftrightarrow> (\<forall>i. 0 < i \<and> i < length xs \<longrightarrow> \<not> cmp (xs ! ((i - 1) div 2)) (xs ! i))"
  by (auto simp: is_heap_by_def list_all_iff)

lemma is_min_heap_iff:
  "is_min_heap xs \<longleftrightarrow> (\<forall>i. 0 < i \<and> i < length xs \<longrightarrow> level (xs ! ((i - 1) div 2)) \<le> level (xs ! i))"
  by (auto simp: is_min_heap_def is_heap_by_iff player_greater_def not_less)

lemma is_max_heap_iff:
  "is_max_heap xs \<longleftrightarrow> (\<forall>i. 0 < i \<and> i < length xs \<longrightarrow> level (xs ! i) \<le> level (xs ! ((i - 1) div 2)))"
  by (auto simp: is_max_heap_def is_heap_by_iff player_less_def not_less)

lemma nth_swap:
  "i < length xs \<Longrightarrow> j < length xs \<Longrightarrow> k < length xs \<Longrightarrow>
   swap xs i j ! k = (if k = j then xs ! i else if k = i then xs ! j else xs ! k)"
  by (simp add: swap_def nth_list_update)

lemma smallest_of_le_cur: "level (h ! smallest_of h c) \<le> level (h ! c)"
  by (simp add: smallest_of_def Let_def player_less_def)

lemma smallest_of_le_child:
  "j = 2 * c + 1 \<or> j = 2 * c + 2 \<Longrightarrow> j < length h \<Longrightarrow> level (h ! smallest_of h c) \<le> level (h ! j)"
  by (auto simp: smallest_of_def Let_def player_less_def)

lemma heap_except_other:
  "heap_except h c \<Longrightarrow> 0 < i \<Longrightarrow> i < length h \<Longrightarrow> (i - 1) div 2 \<noteq> c \<Longrightarrow>
   level (h ! ((i - 1) div 2)) \<le> level (h ! i)"
  unfolding heap_except_def by blast

lemma heap_except_grand:
  "heap_except h c \<Longrightarrow> 0 < i \<Longrightarrow> i < length h \<Longrightarrow> (i - 1) div 2 = c \<Longrightarrow> 0 < c \<Longrightarrow>
   level (h ! ((c - 1) div 2)) \<le> level (h ! i)"
  unfolding heap_except_def by blast

lemma heap_except_done:
  assumes "heap_except h c" "smallest_of h c = c"
  shows "is_min_heap h"
  unfolding is_min_heap_iff
proof (intro allI impI)
  fix i assume i: "0 < i \<and> i < length h"
  show "level (h ! ((i - 1) div 2)) \<le> level (h ! i)"
  proof (cases "(i - 1) div 2 = c")
    case True
    then have "i = 2 * c + 1 \<or> i = 2 * c + 2" using i by arith
    then have "level (h ! smallest_of h c) \<le> level (h ! i)"
      using i by (intro smallest_of_le_child) auto
    then show ?thesis using True assms(2) by simp
  next
    case False
    then show ?thesis using heap_except_other [OF assms(1), of i] i by blast
  qed
qed

lemma heap_except_step:
  assumes he: "heap_except h c" and ne: "smallest_of h c \<noteq> c" and c: "c < length h"
  shows "heap_except (swap h c (smallest_of h c)) (smallest_of h c)"
proof -
  define s where "s = smallest_of h c"
  have sb: "c < s" "s < length h" using smallest_of_bound [OF ne] by (simp_all add: s_def)
  have sc: "s = 2 * c + 1 \<or> s = 2 * c + 2"
    using smallest_of_cases [of h c] ne by (auto simp: s_def)
  have ps: "(s - 1) div 2 = c" using sc by arith
  have le_c: "level (h ! s) \<le> level (h ! c)" using smallest_of_le_cur [of h c] by (simp add: s_def)
  have le_ch: "\<And>j. j = 2 * c + 1 \<or> j = 2 * c + 2 \<Longrightarrow> j < length h \<Longrightarrow> level (h ! s) \<le> level (h ! j)"
    using smallest_of_le_child [of _ c h] by (simp add: s_def)
  let ?h = "swap h c s"
  have nth: "\<And>k. k < length h \<Longrightarrow> ?h ! k = (if k = s then h ! c else if k = c then h ! s else h ! k)"
    using nth_swap [OF c sb(2)] by simp
  have other: "level (?h ! ((i - 1) div 2)) \<le> level (?h ! i)"
    if i0: "0 < i" and il: "i < length h" and ns: "(i - 1) div 2 \<noteq> s" for i
  proof -
    have pl: "(i - 1) div 2 < length h" using il by arith
    show ?thesis
    proof (cases "(i - 1) div 2 = c")
      case True
      then have ic: "i = 2 * c + 1 \<or> i = 2 * c + 2" using i0 by arith
      then have inc: "i \<noteq> c" by auto
      show ?thesis
      proof (cases "i = s")
        case True
        then show ?thesis using ps nth [OF sb(2)] nth [OF c] le_c sb by simp
      next
        case False
        then show ?thesis
          using True nth [OF il] nth [OF c] le_ch [OF ic il] inc sb by simp
      qed
    next
      case False
      note nc = this
      show ?thesis
      proof (cases "i = c")
        case True
        then have c0: "0 < c" using i0 by simp
        have "level (h ! ((c - 1) div 2)) \<le> level (h ! s)"
          using heap_except_grand [OF he _ sb(2) ps c0] sb by simp
        moreover have "(c - 1) div 2 \<noteq> s" "(c - 1) div 2 \<noteq> c" using sb c0 by arith+
        moreover have "(c - 1) div 2 < length h" using c by arith
        ultimately show ?thesis
          using True nth [OF c] nth [of "(c - 1) div 2"] sb by simp
      next
        case False
        then have "i \<noteq> s" using nc ps by auto
        moreover have "level (h ! ((i - 1) div 2)) \<le> level (h ! i)"
          using heap_except_other [OF he i0 il nc] .
        ultimately show ?thesis
          using ns nc False nth [OF il] nth [OF pl] by simp
      qed
    qed
  qed
  have grand: "level (?h ! ((s - 1) div 2)) \<le> level (?h ! i)"
    if i0: "0 < i" and il: "i < length h" and ip: "(i - 1) div 2 = s" for i
  proof -
    have "(i - 1) div 2 < i" using i0 by arith
    then have "i \<noteq> s" "i \<noteq> c" using ip sb by auto
    moreover have "level (h ! s) \<le> level (h ! i)"
      using heap_except_other [OF he i0 il] ip sb by simp
    ultimately show ?thesis using ps nth [OF il] nth [OF c] sb by simp
  qed
  have "heap_except ?h s"
    unfolding heap_except_def using other grand by simp
  then show ?thesis by (simp add: s_def)
qed

lemma is_min_heap_percolateDown:
  "heap_except h c \<Longrightarrow> c < length h \<Longrightarrow> is_min_heap (percolateDown h c)"
proof (induction h c rule: percolateDown.induct)
  case (1 h cur)
  show ?case
  proof (cases "smallest_of h cur = cur")
    case True
    then have "percolateDown h cur = h" by (subst percolateDown.simps) (simp add: Let_def)
    then show ?thesis using heap_except_done [OF "1.prems"(1) True] by simp
  next
    case False
    have b: "smallest_of h cur < length h" using smallest_of_bound [OF False] by simp
    have "is_min_heap (percolateDown (swap h cur (smallest_of h cur)) (smallest_of h cur))"
      using "1.IH" [OF refl False heap_except_step [OF "1.prems"(1) False "1.prems"(2)]] b by simp
    then show ?thesis using False by (subst percolateDown.simps) (simp add: Let_def)
  qed
qed

lemma heap_except_root:
  assumes "is_min_heap h"
  shows "heap_except (h[0 := t]) 0"
proof -
  have "level (h[0 := t] ! ((i - 1) div 2)) \<le> level (h[0 := t] ! i)"
    if "0 < i" "i < length h" "(i - 1) div 2 \<noteq> 0" for i
  proof -
    have "level (h ! ((i - 1) div 2)) \<le> level (h ! i)"
      using assms that by (simp add: is_min_heap_iff)
    then show ?thesis using that by simp
  qed
  then show ?thesis unfolding heap_except_def by simp
qed

lemma is_min_heap_replaceMin: "is_min_heap h \<Longrightarrow> is_min_heap (replaceMin h t)"
proof (cases "h = []")
  case True
  then show ?thesis by (simp add: replaceMin_def is_min_heap_iff)
next
  case False
  assume "is_min_heap h"
  then have "is_min_heap (percolateDown (h[0 := t]) 0)"
    using is_min_heap_percolateDown [OF heap_except_root, of h t] False by simp
  then show ?thesis using False by (simp add: replaceMin_def)
qed

lemma mset_replaceMin: "h \<noteq> [] \<Longrightarrow> mset (replaceMin h t) = add_mset t (mset h - {#hd h#})"
  by (simp add: replaceMin_def mset_percolateDown mset_update hd_conv_nth)

lemma length_replaceMin [simp]: "length (replaceMin h t) = length h"
  by (simp add: replaceMin_def)

section \<open>Heaps, sorted lists and the reference implementations\<close>

lemma min_heap_root_le:
  assumes "is_min_heap xs" and "i < length xs"
  shows "level (xs ! 0) \<le> level (xs ! i)"
  using assms(2)
proof (induction i rule: less_induct)
  case (less i)
  show ?case
  proof (cases "i = 0")
    case True then show ?thesis by simp
  next
    case False
    then have p: "(i - 1) div 2 < i" by arith
    then have "level (xs ! 0) \<le> level (xs ! ((i - 1) div 2))"
      using less by simp
    moreover have "level (xs ! ((i - 1) div 2)) \<le> level (xs ! i)"
      using assms(1) False less.prems by (simp add: is_min_heap_iff)
    ultimately show ?thesis by simp
  qed
qed

lemma min_heap_hd_le: "is_min_heap xs \<Longrightarrow> x \<in> set xs \<Longrightarrow> level (hd xs) \<le> level x"
  by (metis min_heap_root_le in_set_conv_nth hd_conv_nth length_greater_0_conv length_pos_if_in_set)

lemma max_heap_root_ge:
  assumes "is_max_heap xs" and "i < length xs"
  shows "level (xs ! i) \<le> level (xs ! 0)"
  using assms(2)
proof (induction i rule: less_induct)
  case (less i)
  show ?case
  proof (cases "i = 0")
    case True then show ?thesis by simp
  next
    case False
    then have p: "(i - 1) div 2 < i" by arith
    then have "level (xs ! ((i - 1) div 2)) \<le> level (xs ! 0)"
      using less by simp
    moreover have "level (xs ! i) \<le> level (xs ! ((i - 1) div 2))"
      using assms(1) False less.prems by (simp add: is_max_heap_iff)
    ultimately show ?thesis by simp
  qed
qed

lemma max_heap_hd_ge: "is_max_heap xs \<Longrightarrow> x \<in> set xs \<Longrightarrow> level x \<le> level (hd xs)"
  by (metis max_heap_root_ge in_set_conv_nth hd_conv_nth length_greater_0_conv length_pos_if_in_set)

lemma sorted_is_min_heap: "sorted (map level xs) \<Longrightarrow> is_min_heap xs"
  unfolding is_min_heap_iff
proof (intro allI impI)
  fix i assume s: "sorted (map level xs)" and i: "0 < i \<and> i < length xs"
  have le: "(i - 1) div 2 \<le> i" by arith
  then have pl: "(i - 1) div 2 < length xs" using i by arith
  have "map level xs ! ((i - 1) div 2) \<le> map level xs ! i"
    using s i le by (intro sorted_nth_mono) simp_all
  then show "level (xs ! ((i - 1) div 2)) \<le> level (xs ! i)"
    using i nth_map [OF pl, of level] by simp
qed

lemma rev_sorted_is_max_heap: "sorted (map level xs) \<Longrightarrow> is_max_heap (rev xs)"
  unfolding is_max_heap_iff
proof (intro allI impI)
  fix i assume s: "sorted (map level xs)" and i: "0 < i \<and> i < length (rev xs)"
  let ?n = "length xs"
  have il: "i < ?n" using i by simp
  have le: "(i - 1) div 2 \<le> i" by arith
  then have pl: "(i - 1) div 2 < ?n" using il by arith
  have a: "?n - 1 - i \<le> ?n - 1 - (i - 1) div 2" using le by arith
  have b: "?n - 1 - (i - 1) div 2 < length (map level xs)" using il by simp
  have "map level xs ! (?n - 1 - i) \<le> map level xs ! (?n - 1 - (i - 1) div 2)"
    using s a b by (rule sorted_nth_mono)
  moreover have "?n - 1 - i < ?n" "?n - 1 - (i - 1) div 2 < ?n" using il by arith+
  ultimately have "level (xs ! (?n - 1 - i)) \<le> level (xs ! (?n - 1 - (i - 1) div 2))"
    by simp
  moreover have "rev xs ! i = xs ! (?n - 1 - i)" using il by (simp add: rev_nth)
  moreover have "rev xs ! ((i - 1) div 2) = xs ! (?n - 1 - (i - 1) div 2)"
    using pl by (simp add: rev_nth)
  ultimately show "level (rev xs ! i) \<le> level (rev xs ! ((i - 1) div 2))"
    by simp
qed

lemma ref_sort_contract: "sort_contract ref_sort"
  by (simp add: sort_contract_def ref_sort_def)

lemma ref_make_min_heap_contract: "make_heap_contract player_greater ref_make_min_heap"
  using sorted_is_min_heap
  by (simp add: make_heap_contract_def ref_make_min_heap_def is_min_heap_def)

lemma ref_make_max_heap_contract: "make_heap_contract player_less ref_make_max_heap"
  using rev_sorted_is_max_heap
  by (simp add: make_heap_contract_def ref_make_max_heap_def is_max_heap_def)

lemma ref_pop_heap_contract: "pop_heap_contract player_less ref_pop_heap"
  unfolding pop_heap_contract_def
proof (intro allI impI)
  fix xs :: "Player list"
  assume "xs \<noteq> [] \<and> is_heap_by player_less xs"
  then obtain x r where xs: "xs = x # r" by (cases xs) auto
  have "is_heap_by player_less (ref_make_max_heap r)"
    using ref_make_max_heap_contract by (simp add: make_heap_contract_def)
  moreover have "mset (ref_make_max_heap r) = mset r"
    using ref_make_max_heap_contract by (simp add: make_heap_contract_def)
  ultimately show "mset (ref_pop_heap xs) = mset xs \<and> last (ref_pop_heap xs) = hd xs \<and>
        is_heap_by player_less (butlast (ref_pop_heap xs))"
    by (simp add: ref_pop_heap_def xs)
qed

lemma ref_nth_element_contract: "nth_element_contract ref_nth_element"
  unfolding nth_element_contract_def
proof (intro allI impI conjI)
  fix xs :: "Player list" and k i j
  show "mset (ref_nth_element xs k) = mset xs" by (simp add: ref_nth_element_def)
  assume "k \<le> length xs" and ij: "i < k \<and> k \<le> j \<and> j < length xs"
  have "map level (sort_key level xs) ! i \<le> map level (sort_key level xs) ! j"
    using ij by (intro sorted_nth_mono) simp_all
  then show "level (ref_nth_element xs k ! i) \<le> level (ref_nth_element xs k ! j)"
    using ij by (simp add: ref_nth_element_def)
qed

lemma sort_split:
  fixes xs ys zs :: "nat list"
  assumes "mset zs = mset xs + mset ys" and "\<forall>x\<in>set xs. \<forall>y\<in>set ys. x \<le> y"
  shows "sort zs = sort xs @ sort ys"
proof (rule properties_for_sort)
  show "mset (sort xs @ sort ys) = mset zs" using assms(1) by simp
  show "sorted (sort xs @ sort ys)" using assms(2) by (simp add: sorted_append)
qed

lemma sorted_levels_unique:
  "mset ys = mset xs \<Longrightarrow> sorted (map level ys) \<Longrightarrow> map level ys = sort (map level xs)"
  by (metis mset_map properties_for_sort)

section \<open>The offline selectors\<close>

lemma extractTop_ok:
  assumes ph: "pop_heap_contract player_less ph"
  shows "is_max_heap players \<Longrightarrow> n \<le> length players \<Longrightarrow>
         (\<forall>a\<in>set acc. \<forall>p\<in>set players. level p \<le> level a) \<Longrightarrow>
         \<exists>rest top. extractTop ph n players acc = Inr (rest, top) \<and>
            mset rest + mset top = mset players + mset acc \<and>
            length top = length acc + n \<and>
            (\<forall>a\<in>set top. \<forall>p\<in>set rest. level p \<le> level a)"
proof (induction n arbitrary: players acc)
  case 0
  then show ?case by simp
next
  case (Suc n)
  then have ne: "players \<noteq> []" by auto
  let ?popped = "ph players"
  have c: "mset ?popped = mset players" "last ?popped = hd players"
    "is_max_heap (butlast ?popped)"
    using ph ne Suc.prems(1) by (simp_all add: pop_heap_contract_def is_max_heap_def)
  have pne: "?popped \<noteq> []" using c(1) ne by (metis mset_zero_iff)
  have split: "mset players = add_mset (hd players) (mset (butlast ?popped))"
    using c(1) c(2) pne by (metis append_butlast_last_id mset.simps(2) mset_append union_mset_add_mset_right add.right_neutral mset.simps(1))
  have sub: "set (butlast ?popped) \<subseteq> set players"
    using split by (metis mset_subset_eq_add_mset_cancel set_mset_mono set_mset_mset subset_mset.order_refl multi_self_add_other_not_self mset_subset_eqD subsetI union_single_eq_member add_mset_add_single union_iff)
  have top: "\<forall>p\<in>set players. level p \<le> level (hd players)"
    using max_heap_hd_ge [OF Suc.prems(1)] by simp
  have len: "n \<le> length (butlast ?popped)"
    using Suc.prems(2) c(1) by (metis length_butlast mset_eq_length Suc_le_mono Suc_pred length_greater_0_conv ne diff_Suc_1 le_diff_conv add.commute plus_1_eq_Suc)
  have inv: "\<forall>a\<in>set (acc @ [last ?popped]). \<forall>p\<in>set (butlast ?popped). level p \<le> level a"
    using Suc.prems(3) top sub c(2) by auto
  obtain rest top where r: "extractTop ph n (butlast ?popped) (acc @ [last ?popped]) = Inr (rest, top)"
    "mset rest + mset top = mset (butlast ?popped) + mset (acc @ [last ?popped])"
    "length top = length (acc @ [last ?popped]) + n"
    "\<forall>a\<in>set top. \<forall>p\<in>set rest. level p \<le> level a"
    using Suc.IH [OF c(3) len inv] by blast
  show ?case
    using r ne split c(2) by (simp add: Let_def)
qed

lemma top_levels:
  assumes m: "mset players = mset rest + mset tops"
    and le: "\<forall>a\<in>set tops. \<forall>p\<in>set rest. level p \<le> level a"
    and srt: "mset sorted_top = mset tops" "sorted (map level sorted_top)"
  shows "map level sorted_top = drop (length players - length tops) (sort (map level players))"
proof -
  have "mset (map level players) = mset (map level rest) + mset (map level tops)"
    using m by (metis mset_map image_mset_union)
  then have "sort (map level players) = sort (map level rest) @ sort (map level tops)"
    using le by (intro sort_split) auto
  moreover have "length players = length rest + length tops"
    using m by (metis mset_append length_append mset_eq_length)
  moreover have "map level sorted_top = sort (map level tops)"
    using srt by (rule sorted_levels_unique)
  ultimately show ?thesis by simp
qed

lemma heapRank_ok:
  assumes mh: "make_heap_contract player_less mh" and ph: "pop_heap_contract player_less ph"
    and srt: "sort_contract srt"
  shows "\<exists>r rest. heapRank mh ph srt players = Inr (r, rest) \<and>
           map level (result_top r)
             = drop (length players - length players div 10) (sort (map level players)) \<and>
           length (result_top r) = length players div 10 \<and>
           sorted (map level (result_top r)) \<and>
           result_cutoffs r = Map.empty \<and>
           mset rest + mset (result_top r) = mset players \<and>
           length rest = length players - length players div 10"
proof -
  let ?heap = "mh players"
  have h: "mset ?heap = mset players" "is_max_heap ?heap"
    using mh by (simp_all add: make_heap_contract_def is_max_heap_def)
  have len: "length ?heap = length players" using h(1) by (rule mset_eq_length)
  obtain rest tops where r: "extractTop ph (length ?heap div 10) ?heap [] = Inr (rest, tops)"
    "mset rest + mset tops = mset ?heap + mset []"
    "length tops = length ([] :: Player list) + length ?heap div 10"
    "\<forall>a\<in>set tops. \<forall>p\<in>set rest. level p \<le> level a"
    using extractTop_ok [OF ph h(2), of "length ?heap div 10" "[]"] by auto
  have s: "mset (srt tops) = mset tops" "sorted (map level (srt tops))"
    using srt by (simp_all add: sort_contract_def)
  have m: "mset players = mset rest + mset tops" using r(2) h(1) by simp
  have lt: "length tops = length players div 10" using r(3) len by simp
  have a: "map level (srt tops)
      = drop (length players - length players div 10) (sort (map level players))"
    using top_levels [OF m r(4) s] unfolding lt .
  have b: "length (srt tops) = length players div 10"
    using mset_eq_length [OF s(1)] unfolding lt .
  have "length players = length rest + length tops"
    using m by (metis mset_append length_append mset_eq_length)
  then have c: "length rest = length players - length players div 10"
    unfolding lt by arith
  have d: "heapRank mh ph srt players
      = Inr (\<lparr>result_top = srt tops, result_cutoffs = Map.empty\<rparr>, rest)"
    using r(1) by (simp add: heapRank_def Let_def)
  have e: "mset rest + mset (srt tops) = mset players" using m s(1) by simp
  show ?thesis
    unfolding d using a b c e s(2) by simp
qed

lemma quickSelectRank_ok:
  assumes nc: "nth_element_contract ne" and srt: "sort_contract srt"
  shows "map level (result_top (fst (quickSelectRank ne srt players)))
             = drop (length players - length players div 10) (sort (map level players)) \<and>
         length (result_top (fst (quickSelectRank ne srt players))) = length players div 10 \<and>
         sorted (map level (result_top (fst (quickSelectRank ne srt players)))) \<and>
         result_cutoffs (fst (quickSelectRank ne srt players)) = Map.empty \<and>
         mset (snd (quickSelectRank ne srt players)) = mset players"
proof -
  let ?N = "length players"
  let ?k = "?N - ?N div 10"
  let ?ys = "ne players ?k"
  let ?top = "drop ?k ?ys"
  have k: "?k \<le> ?N" by simp
  have c: "mset ?ys = mset players"
    "\<And>i j. i < ?k \<Longrightarrow> ?k \<le> j \<Longrightarrow> j < ?N \<Longrightarrow> level (?ys ! i) \<le> level (?ys ! j)"
    using nc k unfolding nth_element_contract_def by blast+
  have len: "length ?ys = ?N" using c(1) by (rule mset_eq_length)
  have m: "mset players = mset (take ?k ?ys) + mset ?top"
    using c(1) by (metis append_take_drop_id mset_append)
  have le: "\<forall>a\<in>set ?top. \<forall>p\<in>set (take ?k ?ys). level p \<le> level a"
  proof (intro ballI)
    fix a p assume "a \<in> set ?top" and "p \<in> set (take ?k ?ys)"
    then obtain j i where j: "a = ?top ! j" "j < length ?top" and i: "p = take ?k ?ys ! i" "i < length (take ?k ?ys)"
      by (metis in_set_conv_nth)
    have "level (?ys ! i) \<le> level (?ys ! (?k + j))"
      using i(2) j(2) len by (intro c(2)) auto
    then show "level p \<le> level a" using i j len by simp
  qed
  have s: "mset (srt ?top) = mset ?top" "sorted (map level (srt ?top))"
    using srt by (simp_all add: sort_contract_def)
  have lt: "length ?top = ?N div 10" using len by simp
  have a: "map level (srt ?top) = drop ?k (sort (map level players))"
    using top_levels [OF m le s] unfolding lt .
  have b: "length (srt ?top) = ?N div 10"
    using mset_eq_length [OF s(1)] unfolding lt .
  have d: "quickSelectRank ne srt players
      = (\<lparr>result_top = srt ?top, result_cutoffs = Map.empty\<rparr>, ?ys)"
    by (simp add: quickSelectRank_def Let_def)
  show ?thesis
    unfolding d using a b s(2) c(1) by simp
qed

section \<open>A concrete collection\<close>

text \<open>What both selectors return on \<open>sample_players\<close> with the reference implementations.\<close>

lemma ev_heapRank: "heapRank ref_make_max_heap ref_pop_heap ref_sort sample_players
      = Inr (\<lparr>result_top = [newPlayer ''p'' 12], result_cutoffs = Map.empty\<rparr>,
             map (newPlayer ''p'') [11, 10, 9, 8, 7, 6, 5, 4, 3, 2, 1])"
  by (simp add: heapRank_def sample_players_def ref_make_max_heap_def ref_pop_heap_def ref_sort_def
        newPlayer_def Let_def)

lemma ev_quick: "quickSelectRank ref_nth_element ref_sort sample_players
      = (\<lparr>result_top = [newPlayer ''p'' 12], result_cutoffs = Map.empty\<rparr>,
             map (newPlayer ''p'') [1,2,3,4,5,6,7,8,9,10,11,12])"
  by (simp add: quickSelectRank_def sample_players_def ref_nth_element_def ref_sort_def
        newPlayer_def Let_def)

section \<open>The loop of rankIncoming as a fold\<close>

lemma wrap_sub:
  fixes a b m :: nat
  assumes "a \<le> b" and "b < m"
  shows "(b + m - a) mod m = b - a"
proof -
  have e: "b + m - a = (b - a) + m" using assms(1) by arith
  have l: "b - a < m" using assms(2) by arith
  have "(b + m - a) mod m = ((b - a) + m) mod m" by (simp only: e)
  also have "\<dots> = (b - a) mod m" by (rule mod_add_self2)
  also have "\<dots> = b - a" using l by (rule mod_less)
  finally show ?thesis .
qed

lemma remaining_eq:
  "stream_index s \<le> length (stream_players s) \<Longrightarrow> length (stream_players s) < 2 ^ 64 \<Longrightarrow>
   remaining s = length (stream_players s) - stream_index s"
  unfolding remaining_def by (rule wrap_sub)

lemma nextPlayer_Inr:
  "stream_index s < length (stream_players s) \<Longrightarrow>
   nextPlayer s = Inr (stream_players s ! stream_index s, s\<lparr>stream_index := stream_index s + 1\<rparr>)"
  by (simp add: nextPlayer_def)

lemma nextPlayer_Inl_iff: "(\<exists>e. nextPlayer s = Inl e) \<longleftrightarrow> length (stream_players s) \<le> stream_index s"
  by (simp add: nextPlayer_def)

lemma newVectorPlayerStream_invariant:
  "stream_index (newVectorPlayerStream ps) \<le> length (stream_players (newVectorPlayerStream ps))"
  by (simp add: newVectorPlayerStream_def)

lemma nextPlayer_keeps_invariant:
  "stream_index s \<le> length (stream_players s) \<Longrightarrow> nextPlayer s = Inr (p, s1) \<Longrightarrow>
   stream_players s1 = stream_players s \<and> stream_index s1 \<le> length (stream_players s1)"
  by (auto simp: nextPlayer_def split: if_splits)

lemma rankLoop_fold:
  "stream_index s \<le> length (stream_players s) \<Longrightarrow> length (stream_players s) < 2 ^ 64 \<Longrightarrow>
   rankLoop mh R s st =
     (case rankFold mh R (pending s) st of Inl e \<Rightarrow> Inl e | Inr st1 \<Rightarrow> Inr (drained s, st1))"
proof (induction "length (stream_players s) - stream_index s" arbitrary: s st)
  case 0
  then have e: "stream_index s = length (stream_players s)" by simp
  then have "remaining s = 0" using remaining_eq [OF "0.prems"] by simp
  moreover have "pending s = []" using e by (simp add: pending_def)
  moreover have "drained s = s" using e by (simp add: drained_def)
  ultimately show ?case by (subst rankLoop.simps) simp
next
  case (Suc n)
  let ?s1 = "s\<lparr>stream_index := stream_index s + 1\<rparr>"
  let ?p = "stream_players s ! stream_index s"
  have lt: "stream_index s < length (stream_players s)" using Suc.hyps(2) by arith
  have r: "remaining s > 0" using remaining_eq [OF Suc.prems] lt by simp
  have np: "nextPlayer s = Inr (?p, ?s1)" using lt by (rule nextPlayer_Inr)
  have pe: "pending s = ?p # pending ?s1"
    using lt by (simp add: pending_def Cons_nth_drop_Suc)
  have dr: "drained ?s1 = drained s" by (simp add: drained_def)
  have n1: "n = length (stream_players ?s1) - stream_index ?s1" using Suc.hyps(2) by simp
  have w1: "stream_index ?s1 \<le> length (stream_players ?s1)" using lt by simp
  have w2: "length (stream_players ?s1) < 2 ^ 64" using Suc.prems(2) by simp
  have ih: "rankLoop mh R ?s1 st1 =
     (case rankFold mh R (pending ?s1) st1 of Inl e \<Rightarrow> Inl e | Inr st2 \<Rightarrow> Inr (drained s, st2))" for st1
    using Suc.hyps(1) [OF n1 w1 w2, of st1] unfolding dr .
  have "rankLoop mh R s st =
      (case rankStep mh R ?p st of Inl e \<Rightarrow> Inl e | Inr st1 \<Rightarrow> rankLoop mh R ?s1 st1)"
    by (subst rankLoop.simps) (simp only: r np if_True sum.case prod.case)
  also have "\<dots> = (case rankStep mh R ?p st of Inl e \<Rightarrow> Inl e
      | Inr st1 \<Rightarrow> (case rankFold mh R (pending ?s1) st1 of
            Inl e \<Rightarrow> Inl e | Inr st2 \<Rightarrow> Inr (drained s, st2)))"
    by (simp only: ih)
  also have "\<dots> = (case rankFold mh R (pending s) st of
      Inl e \<Rightarrow> Inl e | Inr st1 \<Rightarrow> Inr (drained s, st1))"
    unfolding pe by (simp split: sum.splits)
  finally show ?case .
qed

lemma updateLeaders_error:
  "updateLeaders mh R p tp = Inl e \<Longrightarrow> e = FrontOfEmpty"
  by (auto simp: updateLeaders_def front_def Let_def split: if_splits list.splits)

lemma recordCutoff_error:
  "recordCutoff R cnt tp cmap = Inl e \<Longrightarrow> e = FrontOfEmpty \<or> e = ModByZero"
  by (auto simp: recordCutoff_def front_def split: if_splits list.splits)

lemma rankStep_error: "rankStep mh R p st = Inl e \<Longrightarrow> e \<noteq> StreamExhausted"
  by (auto simp: rankStep_def Let_def split: sum.splits
      dest: updateLeaders_error recordCutoff_error)

lemma rankFold_error: "rankFold mh R ps st = Inl e \<Longrightarrow> e \<noteq> StreamExhausted"
  by (induction ps arbitrary: st) (auto split: sum.splits dest: rankStep_error)

lemma finalCutoff_error: "finalCutoff st = Inl e \<Longrightarrow> e = FrontOfEmpty"
  by (auto simp: finalCutoff_def front_def split: if_splits list.splits)

lemma rankIncoming_fold:
  assumes "stream_index s \<le> length (stream_players s)" and "length (stream_players s) < 2 ^ 64"
  shows "rankIncoming mh srt s R =
     (case rankFold mh R (pending s) \<lparr>st_topPlayers = [], st_cutoffs = Map.empty, st_playerCount = 0\<rparr> of
        Inl e \<Rightarrow> Inl e
      | Inr st \<Rightarrow>
          (case finalCutoff st of
             Inl e \<Rightarrow> Inl e
           | Inr cmap \<Rightarrow> Inr (\<lparr>result_top = srt (st_topPlayers st), result_cutoffs = cmap\<rparr>, drained s)))"
  by (simp add: rankIncoming_def rankLoop_fold [OF assms] split: sum.splits)

section \<open>The invariant of the loop of rankIncoming\<close>

lemma leaders_inv_init:
  "leaders_inv R [] \<lparr>st_topPlayers = [], st_cutoffs = Map.empty, st_playerCount = 0\<rparr>"
  by (auto simp: leaders_inv_def is_min_heap_iff)

lemma front_nonempty: "tp \<noteq> [] \<Longrightarrow> front tp = Inr (hd tp)"
  by (cases tp) (simp_all add: front_def)

lemma keys_step:
  "0 < R \<Longrightarrow> {k. 0 < k \<and> k \<le> Suc n \<and> R dvd k}
     = (if Suc n mod R = 0 then insert (Suc n) {k. 0 < k \<and> k \<le> n \<and> R dvd k}
        else {k. 0 < k \<and> k \<le> n \<and> R dvd k})"
  by (auto simp: le_Suc_eq dvd_eq_mod_eq_0)

text \<open>The buffer after \<open>updateLeaders\<close>, without the cutoffs.\<close>

lemma updateLeaders_inv:
  assumes mh: "make_heap_contract player_greater mh" and R: "0 < R"
    and len: "length tp = min R (length seen)"
    and short: "length seen < R \<longrightarrow> tp = seen"
    and heap: "R \<le> length seen \<longrightarrow> is_min_heap tp"
    and ms: "mset seen = mset dropped + mset tp"
    and le: "\<forall>b\<in>set tp. \<forall>d\<in>set dropped. level d \<le> level b"
  shows "\<exists>tp1 dropped1. updateLeaders mh R p tp = Inr tp1 \<and>
           length tp1 = min R (Suc (length seen)) \<and>
           (Suc (length seen) < R \<longrightarrow> tp1 = seen @ [p]) \<and>
           (R \<le> Suc (length seen) \<longrightarrow> is_min_heap tp1) \<and>
           mset (seen @ [p]) = mset dropped1 + mset tp1 \<and>
           (\<forall>b\<in>set tp1. \<forall>d\<in>set dropped1. level d \<le> level b)"
proof (cases "length seen < R")
  case True
  then have tp: "tp = seen" using short by simp
  have d: "dropped = []" using ms tp by simp
  show ?thesis
  proof (cases "Suc (length seen) = R")
    case True
    have c: "mset (mh (seen @ [p])) = mset (seen @ [p])" "is_min_heap (mh (seen @ [p]))"
      using mh by (simp_all add: make_heap_contract_def is_min_heap_def)
    have "updateLeaders mh R p tp = Inr (mh (seen @ [p]))"
      using True tp by (simp add: updateLeaders_def Let_def)
    moreover have "length (mh (seen @ [p])) = min R (Suc (length seen))"
      using mset_eq_length [OF c(1)] True by simp
    moreover have "mset (seen @ [p]) = mset ([] :: Player list) + mset (mh (seen @ [p]))"
      using c(1) by simp
    ultimately show ?thesis using c(2) True by (intro exI [of _ "mh (seen @ [p])"] exI [of _ "[]"]) simp
  next
    case False
    then have lt: "Suc (length seen) < R" using True by simp
    have "updateLeaders mh R p tp = Inr (seen @ [p])"
      using True False tp by (simp add: updateLeaders_def Let_def)
    moreover have "mset (seen @ [p]) = mset ([] :: Player list) + mset (seen @ [p])" by simp
    ultimately show ?thesis using lt by (intro exI [of _ "seen @ [p]"] exI [of _ "[]"]) simp
  qed
next
  case False
  then have ge: "R \<le> length seen" by simp
  then have l: "length tp = R" and h: "is_min_heap tp" using len heap by simp_all
  then have ne: "tp \<noteq> []" using R by auto
  have fr: "front tp = Inr (hd tp)" using ne by (rule front_nonempty)
  have root: "\<forall>b\<in>set tp. level (hd tp) \<le> level b"
    using min_heap_hd_le [OF h] by simp
  have hd_in: "hd tp \<in> set tp" using ne by simp
  show ?thesis
  proof (cases "player_greater p (hd tp)")
    case True
    then have gt: "level (hd tp) < level p" by (simp add: player_greater_def)
    let ?tp1 = "replaceMin tp p"
    have m1: "mset ?tp1 = add_mset p (mset tp - {#hd tp#})" using ne by (rule mset_replaceMin)
    have u: "updateLeaders mh R p tp = Inr ?tp1"
      using l fr True by (simp add: updateLeaders_def)
    have "mset tp = add_mset (hd tp) (mset tp - {#hd tp#})" using hd_in by simp
    then have m2: "mset (seen @ [p]) = mset (hd tp # dropped) + mset ?tp1"
      using ms m1 by simp
    have sub: "set ?tp1 \<subseteq> insert p (set tp)"
    proof
      fix x assume "x \<in> set ?tp1"
      then have "x \<in># add_mset p (mset tp - {#hd tp#})" using m1 by (metis set_mset_mset)
      then show "x \<in> insert p (set tp)" by (auto dest: in_diffD)
    qed
    have le1: "\<forall>b\<in>set ?tp1. \<forall>d\<in>set (hd tp # dropped). level d \<le> level b"
    proof (intro ballI)
      fix b d assume b: "b \<in> set ?tp1" and d: "d \<in> set (hd tp # dropped)"
      have dh: "level d \<le> level (hd tp)" using d le hd_in by auto
      show "level d \<le> level b"
      proof (cases "b = p")
        case True then show ?thesis using dh gt by simp
      next
        case False
        then have "b \<in> set tp" using b sub by auto
        then show ?thesis using d le root by auto
      qed
    qed
    show ?thesis
      using u m2 le1 l ge is_min_heap_replaceMin [OF h, of p]
      by (intro exI [of _ ?tp1] exI [of _ "hd tp # dropped"]) simp
  next
    case False
    then have ngt: "level p \<le> level (hd tp)" by (simp add: player_greater_def)
    have u: "updateLeaders mh R p tp = Inr tp"
      using l fr False by (simp add: updateLeaders_def)
    have m2: "mset (seen @ [p]) = mset (p # dropped) + mset tp" using ms by simp
    have le1: "\<forall>b\<in>set tp. \<forall>d\<in>set (p # dropped). level d \<le> level b"
      using le root ngt by (auto intro: order_trans)
    show ?thesis
      using u m2 le1 l ge h
      by (intro exI [of _ tp] exI [of _ "p # dropped"]) simp
  qed
qed

lemma rankStep_inv:
  assumes mh: "make_heap_contract player_greater mh" and R: "0 < R"
    and inv: "leaders_inv R seen st"
  shows "\<exists>st1. rankStep mh R p st = Inr st1 \<and> leaders_inv R (seen @ [p]) st1"
proof -
  obtain dropped where d: "mset seen = mset dropped + mset (st_topPlayers st)"
    "\<forall>b\<in>set (st_topPlayers st). \<forall>d\<in>set dropped. level d \<le> level b"
    using inv unfolding leaders_inv_def by blast
  have i: "st_playerCount st = length seen"
    "length (st_topPlayers st) = min R (length seen)"
    "length seen < R \<longrightarrow> st_topPlayers st = seen"
    "R \<le> length seen \<longrightarrow> is_min_heap (st_topPlayers st)"
    "dom (st_cutoffs st) = {k. 0 < k \<and> k \<le> length seen \<and> R dvd k}"
    using inv unfolding leaders_inv_def by blast+
  obtain tp1 dropped1 where u: "updateLeaders mh R p (st_topPlayers st) = Inr tp1"
    "length tp1 = min R (Suc (length seen))"
    "Suc (length seen) < R \<longrightarrow> tp1 = seen @ [p]"
    "R \<le> Suc (length seen) \<longrightarrow> is_min_heap tp1"
    "mset (seen @ [p]) = mset dropped1 + mset tp1"
    "\<forall>b\<in>set tp1. \<forall>d\<in>set dropped1. level d \<le> level b"
    using updateLeaders_inv [OF mh R i(2) i(3) i(4) d, of p] by blast
  have "0 < length tp1" using R unfolding u(2) by (simp add: min_def)
  then have ne: "tp1 \<noteq> []" by simp
  define cm where "cm = (if Suc (length seen) mod R = 0
      then (st_cutoffs st)(Suc (length seen) \<mapsto> level (hd tp1)) else st_cutoffs st)"
  have rc: "recordCutoff R (Suc (length seen)) tp1 (st_cutoffs st) = Inr cm"
    using R front_nonempty [OF ne] by (simp add: recordCutoff_def cm_def)
  have dm: "dom cm = {k. 0 < k \<and> k \<le> Suc (length seen) \<and> R dvd k}"
    unfolding keys_step [OF R] cm_def using i(5) by simp
  let ?st1 = "\<lparr>st_topPlayers = tp1, st_cutoffs = cm, st_playerCount = Suc (length seen)\<rparr>"
  have "rankStep mh R p st = Inr ?st1"
    using u(1) rc i(1) by (simp add: rankStep_def Let_def)
  moreover have "leaders_inv R (seen @ [p]) ?st1"
    unfolding leaders_inv_def using u(2-6) dm by auto
  ultimately show ?thesis by blast
qed

lemma rankFold_inv:
  assumes mh: "make_heap_contract player_greater mh" and R: "0 < R"
  shows "leaders_inv R seen st \<Longrightarrow>
         \<exists>st1. rankFold mh R ps st = Inr st1 \<and> leaders_inv R (seen @ ps) st1"
proof (induction ps arbitrary: seen st)
  case Nil
  then show ?case by simp
next
  case (Cons p ps)
  obtain st1 where s: "rankStep mh R p st = Inr st1" "leaders_inv R (seen @ [p]) st1"
    using rankStep_inv [OF mh R Cons.prems, of p] by blast
  obtain st2 where "rankFold mh R ps st1 = Inr st2" "leaders_inv R ((seen @ [p]) @ ps) st2"
    using Cons.IH [OF s(2)] by blast
  then show ?case using s(1) by simp
qed

section \<open>Ties at the lowest kept level\<close>

lemma ev_spec: "spec_top_first_seen 3 tie_stream = [newPlayer ''B'' 5, newPlayer ''F'' 6, newPlayer ''E'' 9]"
  by (simp add: spec_top_first_seen_def tie_stream_def newPlayer_def)

text \<open>
  A stream on which the tie at the lowest kept level goes to the later player. Its first
  three players can be arranged as a min-heap in one way only, so every \<open>make_heap\<close> within
  the contract returns the same buffer, and each later step is \<open>replaceMin\<close> or a drop.
\<close>

lemma level_newPlayer: "level (newPlayer n l) = l"
  by (simp add: newPlayer_def)

lemma forced_heap:
  assumes "make_heap_contract player_greater mh"
  shows "mh [newPlayer ''X'' 2, newPlayer ''Y'' 3, newPlayer ''Y'' 3] = [newPlayer ''X'' 2, newPlayer ''Y'' 3, newPlayer ''Y'' 3]"
proof -
  let ?x = "newPlayer ''X'' 2" and ?y = "newPlayer ''Y'' 3"
  let ?zs = "mh [?x, ?y, ?y]"
  have m: "mset ?zs = mset [?x, ?y, ?y]" and h: "is_min_heap ?zs"
    using assms by (simp_all add: make_heap_contract_def is_min_heap_def)
  have s: "set ?zs = {?x, ?y}" using mset_eq_setD [OF m] by auto
  have l: "length ?zs = 3" using mset_eq_length [OF m] by simp
  then have ne: "?zs \<noteq> []" by auto
  have "level (hd ?zs) \<le> level ?x" using min_heap_hd_le [OF h, of ?x] s by simp
  moreover have "hd ?zs \<in> {?x, ?y}" using ne s hd_in_set by blast
  ultimately have hx: "hd ?zs = ?x" by (auto simp: newPlayer_def)
  have z: "?zs = ?x # tl ?zs" using ne hx by (metis list.collapse)
  have "mset (tl ?zs) = mset ?zs - {#?x#}" by (subst (2) z) simp
  then have mt: "mset (tl ?zs) = mset [?y, ?y]" using m by simp
  have "\<forall>v\<in>set (tl ?zs). v = ?y" using mset_eq_setD [OF mt] by auto
  then have "replicate (length (tl ?zs)) ?y = tl ?zs" by (rule replicate_length_same)
  moreover have "length (tl ?zs) = 2" using l by simp
  ultimately have "tl ?zs = [?y, ?y]" by (simp add: numeral_2_eq_2)
  then show ?thesis using z by simp
qed

lemma tie_step1:
  "rankStep mh 3 (newPlayer ''X'' 2)
     \<lparr>st_topPlayers = [], st_cutoffs = Map.empty, st_playerCount = 0\<rparr>
   = Inr \<lparr>st_topPlayers = [newPlayer ''X'' 2], st_cutoffs = Map.empty, st_playerCount = 1\<rparr>"
  by (simp add: rankStep_def updateLeaders_def recordCutoff_def front_def player_greater_def
      player_less_def replaceMin_def percolateDown.simps smallest_of_def swap_def newPlayer_def
      Let_def)

lemma tie_step2:
  "rankStep mh 3 (newPlayer ''Y'' 3)
     \<lparr>st_topPlayers = [newPlayer ''X'' 2], st_cutoffs = Map.empty, st_playerCount = 1\<rparr>
   = Inr \<lparr>st_topPlayers = [newPlayer ''X'' 2, newPlayer ''Y'' 3], st_cutoffs = Map.empty, st_playerCount = 2\<rparr>"
  by (simp add: rankStep_def updateLeaders_def recordCutoff_def front_def player_greater_def
      player_less_def replaceMin_def percolateDown.simps smallest_of_def swap_def newPlayer_def
      Let_def)

lemma tie_step3:
  assumes "make_heap_contract player_greater mh"
  shows "rankStep mh 3 (newPlayer ''Y'' 3)
     \<lparr>st_topPlayers = [newPlayer ''X'' 2, newPlayer ''Y'' 3], st_cutoffs = Map.empty, st_playerCount = 2\<rparr>
   = Inr \<lparr>st_topPlayers = [newPlayer ''X'' 2, newPlayer ''Y'' 3, newPlayer ''Y'' 3], st_cutoffs = [3 \<mapsto> 2], st_playerCount = 3\<rparr>"
  by (simp add: rankStep_def updateLeaders_def recordCutoff_def front_def forced_heap [OF assms]
      level_newPlayer Let_def)

lemma tie_step4:
  "rankStep mh 3 (newPlayer ''B'' 5)
     \<lparr>st_topPlayers = [newPlayer ''X'' 2, newPlayer ''Y'' 3, newPlayer ''Y'' 3], st_cutoffs = [3 \<mapsto> 2], st_playerCount = 3\<rparr>
   = Inr \<lparr>st_topPlayers = [newPlayer ''Y'' 3, newPlayer ''B'' 5, newPlayer ''Y'' 3], st_cutoffs = [3 \<mapsto> 2], st_playerCount = 4\<rparr>"
  by (simp add: rankStep_def updateLeaders_def recordCutoff_def front_def player_greater_def
      player_less_def replaceMin_def percolateDown.simps smallest_of_def swap_def newPlayer_def
      Let_def)

lemma tie_step5:
  "rankStep mh 3 (newPlayer ''C'' 5)
     \<lparr>st_topPlayers = [newPlayer ''Y'' 3, newPlayer ''B'' 5, newPlayer ''Y'' 3], st_cutoffs = [3 \<mapsto> 2], st_playerCount = 4\<rparr>
   = Inr \<lparr>st_topPlayers = [newPlayer ''Y'' 3, newPlayer ''B'' 5, newPlayer ''C'' 5], st_cutoffs = [3 \<mapsto> 2], st_playerCount = 5\<rparr>"
  by (simp add: rankStep_def updateLeaders_def recordCutoff_def front_def player_greater_def
      player_less_def replaceMin_def percolateDown.simps smallest_of_def swap_def newPlayer_def
      Let_def)

lemma tie_step6:
  "rankStep mh 3 (newPlayer ''E'' 9)
     \<lparr>st_topPlayers = [newPlayer ''Y'' 3, newPlayer ''B'' 5, newPlayer ''C'' 5], st_cutoffs = [3 \<mapsto> 2], st_playerCount = 5\<rparr>
   = Inr \<lparr>st_topPlayers = [newPlayer ''B'' 5, newPlayer ''E'' 9, newPlayer ''C'' 5], st_cutoffs = [3 \<mapsto> 2, 6 \<mapsto> 5], st_playerCount = 6\<rparr>"
  by (simp add: rankStep_def updateLeaders_def recordCutoff_def front_def player_greater_def
      player_less_def replaceMin_def percolateDown.simps smallest_of_def swap_def newPlayer_def
      Let_def)

lemma tie_step7:
  "rankStep mh 3 (newPlayer ''F'' 6)
     \<lparr>st_topPlayers = [newPlayer ''B'' 5, newPlayer ''E'' 9, newPlayer ''C'' 5], st_cutoffs = [3 \<mapsto> 2, 6 \<mapsto> 5], st_playerCount = 6\<rparr>
   = Inr \<lparr>st_topPlayers = [newPlayer ''C'' 5, newPlayer ''E'' 9, newPlayer ''F'' 6], st_cutoffs = [3 \<mapsto> 2, 6 \<mapsto> 5], st_playerCount = 7\<rparr>"
  by (simp add: rankStep_def updateLeaders_def recordCutoff_def front_def player_greater_def
      player_less_def replaceMin_def percolateDown.simps smallest_of_def swap_def newPlayer_def
      Let_def)

lemma tie_stream_result:
  assumes "make_heap_contract player_greater mh"
  shows "rankIncoming mh srt (newVectorPlayerStream tie_stream) 3
     = Inr (\<lparr>result_top = srt [newPlayer ''C'' 5, newPlayer ''E'' 9, newPlayer ''F'' 6],
              result_cutoffs = [3 \<mapsto> 2, 6 \<mapsto> 5, 7 \<mapsto> 5]\<rparr>,
            \<lparr>stream_players = tie_stream, stream_index = 7\<rparr>)"
proof -
  let ?s = "newVectorPlayerStream tie_stream"
  have a: "stream_index ?s \<le> length (stream_players ?s)"
    by (simp add: newVectorPlayerStream_def)
  have b: "length (stream_players ?s) < 2 ^ 64"
    by (simp add: newVectorPlayerStream_def tie_stream_def)
  have p: "pending ?s = tie_stream" by (simp add: pending_def newVectorPlayerStream_def)
  have d: "drained ?s = \<lparr>stream_players = tie_stream, stream_index = 7\<rparr>"
    by (simp add: drained_def newVectorPlayerStream_def tie_stream_def)
  have f: "rankFold mh 3 tie_stream
      \<lparr>st_topPlayers = [], st_cutoffs = Map.empty, st_playerCount = 0\<rparr>
    = Inr \<lparr>st_topPlayers = [newPlayer ''C'' 5, newPlayer ''E'' 9, newPlayer ''F'' 6], st_cutoffs = [3 \<mapsto> 2, 6 \<mapsto> 5], st_playerCount = 7\<rparr>"
    unfolding tie_stream_def
    by (simp only: rankFold.simps tie_step1 tie_step2 tie_step3 [OF assms] tie_step4 tie_step5
        tie_step6 tie_step7 sum.case)
  show ?thesis
    unfolding rankIncoming_fold [OF a b] p d f
    by (simp add: finalCutoff_def front_def newPlayer_def)
qed

section \<open>The cutoffs\<close>

lemma rankFold_append:
  "rankFold mh R (xs @ ys) st =
     (case rankFold mh R xs st of Inl e \<Rightarrow> Inl e | Inr st1 \<Rightarrow> rankFold mh R ys st1)"
  by (induction xs arbitrary: st) (simp_all split: sum.splits)

text \<open>Below the reporting interval the loop only appends, and records nothing.\<close>

lemma rankStep_short:
  assumes "Suc (length tp) < R"
  shows "rankStep mh R p \<lparr>st_topPlayers = tp, st_cutoffs = Map.empty, st_playerCount = length tp\<rparr>
     = Inr \<lparr>st_topPlayers = tp @ [p], st_cutoffs = Map.empty, st_playerCount = Suc (length tp)\<rparr>"
proof -
  have "Suc (length tp) mod R = Suc (length tp)" using assms by simp
  then have "Suc (length tp) mod R \<noteq> 0" by simp
  then show ?thesis
    using assms by (simp add: rankStep_def updateLeaders_def recordCutoff_def Let_def)
qed

lemma rankFold_short:
  "length (seen @ ps) < R \<Longrightarrow>
   rankFold mh R ps \<lparr>st_topPlayers = seen, st_cutoffs = Map.empty, st_playerCount = length seen\<rparr>
     = Inr \<lparr>st_topPlayers = seen @ ps, st_cutoffs = Map.empty,
            st_playerCount = length (seen @ ps)\<rparr>"
proof (induction ps arbitrary: seen)
  case Nil
  then show ?case by simp
next
  case (Cons p ps)
  have "Suc (length seen) < R" using Cons.prems by simp
  then have "rankStep mh R p \<lparr>st_topPlayers = seen, st_cutoffs = Map.empty, st_playerCount = length seen\<rparr>
     = Inr \<lparr>st_topPlayers = seen @ [p], st_cutoffs = Map.empty, st_playerCount = length (seen @ [p])\<rparr>"
    using rankStep_short [of seen R mh p] by simp
  moreover have "rankFold mh R ps \<lparr>st_topPlayers = seen @ [p], st_cutoffs = Map.empty,
        st_playerCount = length (seen @ [p])\<rparr>
     = Inr \<lparr>st_topPlayers = (seen @ [p]) @ ps, st_cutoffs = Map.empty,
            st_playerCount = length ((seen @ [p]) @ ps)\<rparr>"
    using Cons.prems by (intro Cons.IH) simp
  ultimately show ?case by simp
qed

text \<open>
  So on a stream of at least one and fewer than \<open>R\<close> players the result is the sorted
  stream, and the single cutoff is the level of the first player read.
\<close>

lemma rankIncoming_short:
  assumes wf: "stream_index s \<le> length (stream_players s)" "length (stream_players s) < 2 ^ 64"
    and ne: "pending s \<noteq> []" and short: "length (pending s) < R"
  shows "rankIncoming mh srt s R
     = Inr (\<lparr>result_top = srt (pending s),
              result_cutoffs = [length (pending s) \<mapsto> level (hd (pending s))]\<rparr>,
            drained s)"
proof -
  have f: "rankFold mh R (pending s) \<lparr>st_topPlayers = [], st_cutoffs = Map.empty, st_playerCount = 0\<rparr>
     = Inr \<lparr>st_topPlayers = pending s, st_cutoffs = Map.empty,
            st_playerCount = length (pending s)\<rparr>"
    using rankFold_short [of "[]" "pending s" R mh] short by simp
  show ?thesis
    unfolding rankIncoming_fold [OF wf] f
    using front_nonempty [OF ne] by (simp add: finalCutoff_def)
qed

text \<open>
  From \<open>R\<close> players on, every value of the cutoffs is the minimum level of the buffer as it
  was when the key's count of players had been consumed.
\<close>

lemma min_heap_hd_Min:
  assumes "is_min_heap tp" and "tp \<noteq> []"
  shows "level (hd tp) = Min (level ` set tp)"
proof -
  have "Min (level ` set tp) = level (hd tp)"
  proof (rule Min_eqI)
    show "finite (level ` set tp)" by simp
    show "level (hd tp) \<in> level ` set tp" using assms(2) by simp
    fix y assume "y \<in> level ` set tp"
    then show "level (hd tp) \<le> y" using min_heap_hd_le [OF assms(1)] by auto
  qed
  then show ?thesis by simp
qed

lemma rankStep_cutoffs:
  assumes "rankStep mh R p st = Inr st1" and "0 < R"
  shows "st_cutoffs st1 =
     (if Suc (st_playerCount st) mod R = 0
      then (st_cutoffs st)(Suc (st_playerCount st) \<mapsto> level (hd (st_topPlayers st1)))
      else st_cutoffs st)"
  using assms
  by (auto simp: rankStep_def recordCutoff_def front_def Let_def split: sum.splits list.splits if_splits)

lemma rankFold_cutoffs:
  assumes mh: "make_heap_contract player_greater mh" and R: "0 < R"
  shows "\<exists>st. rankFold mh R ps \<lparr>st_topPlayers = [], st_cutoffs = Map.empty, st_playerCount = 0\<rparr>
            = Inr st \<and>
          leaders_inv R ps st \<and>
          (\<forall>k v. st_cutoffs st k = Some v \<longrightarrow> buffer_minimum_at mh R ps k v)"
proof (induction ps rule: rev_induct)
  case Nil
  show ?case using leaders_inv_init [of R] by simp
next
  case (snoc p ps)
  let ?init = "\<lparr>st_topPlayers = [], st_cutoffs = Map.empty, st_playerCount = 0\<rparr>"
  obtain st where st: "rankFold mh R ps ?init = Inr st" "leaders_inv R ps st"
    "\<forall>k v. st_cutoffs st k = Some v \<longrightarrow> buffer_minimum_at mh R ps k v"
    using snoc.IH by blast
  obtain st1 where s1: "rankStep mh R p st = Inr st1" "leaders_inv R (ps @ [p]) st1"
    using rankStep_inv [OF mh R st(2), of p] by blast
  have f: "rankFold mh R (ps @ [p]) ?init = Inr st1"
    using st(1) s1(1) by (simp add: rankFold_append)
  have cnt: "st_playerCount st = length ps" using st(2) by (simp add: leaders_inv_def)
  have dm: "dom (st_cutoffs st) = {k. 0 < k \<and> k \<le> length ps \<and> R dvd k}"
    using st(2) by (simp add: leaders_inv_def)
  note c = rankStep_cutoffs [OF s1(1) R, unfolded cnt]
  have "buffer_minimum_at mh R (ps @ [p]) k v" if kv: "st_cutoffs st1 k = Some v" for k v
  proof (cases "Suc (length ps) mod R = 0 \<and> k = Suc (length ps)")
    case True
    then have v: "v = level (hd (st_topPlayers st1))" using kv c by simp
    have "R dvd Suc (length ps)" using True by (simp add: dvd_eq_mod_eq_0)
    then have "R \<le> Suc (length ps)" by (rule dvd_imp_le) simp
    then have h: "is_min_heap (st_topPlayers st1)" using s1(2) by (simp add: leaders_inv_def)
    have "length (st_topPlayers st1) = min R (Suc (length ps))"
      using s1(2) by (simp add: leaders_inv_def)
    then have "0 < length (st_topPlayers st1)" using R by (simp add: min_def)
    then have "st_topPlayers st1 \<noteq> []" by simp
    then have "v = Min (level ` set (st_topPlayers st1))"
      using v min_heap_hd_Min [OF h] by simp
    then show ?thesis using f True by (auto simp: buffer_minimum_at_def)
  next
    case False
    then have old: "st_cutoffs st k = Some v" using kv c by (auto split: if_splits)
    then have "k \<in> dom (st_cutoffs st)" by blast
    then have "k \<le> length ps" using dm by simp
    then have "take k (ps @ [p]) = take k ps" by simp
    then show ?thesis using st(3) old by (simp add: buffer_minimum_at_def)
  qed
  then show ?case using f s1(2) by blast
qed

lemma rankIncoming_cutoffs:
  assumes mh: "make_heap_contract player_greater mh" and R: "0 < R"
    and wf: "stream_index s \<le> length (stream_players s)" "length (stream_players s) < 2 ^ 64"
    and full: "R \<le> length (pending s)"
  shows "\<exists>r. rankIncoming mh srt s R = Inr (r, drained s) \<and>
           dom (result_cutoffs r)
             = insert (length (pending s)) {k. 0 < k \<and> k \<le> length (pending s) \<and> R dvd k} \<and>
           (\<forall>k v. result_cutoffs r k = Some v \<longrightarrow> buffer_minimum_at mh R (pending s) k v)"
proof -
  let ?ps = "pending s"
  let ?init = "\<lparr>st_topPlayers = [], st_cutoffs = Map.empty, st_playerCount = 0\<rparr>"
  obtain st where st: "rankFold mh R ?ps ?init = Inr st" "leaders_inv R ?ps st"
    "\<forall>k v. st_cutoffs st k = Some v \<longrightarrow> buffer_minimum_at mh R ?ps k v"
    using rankFold_cutoffs [OF mh R, of ?ps] by blast
  let ?tp = "st_topPlayers st"
  have i: "st_playerCount st = length ?ps" "length ?tp = min R (length ?ps)"
    "dom (st_cutoffs st) = {k. 0 < k \<and> k \<le> length ?ps \<and> R dvd k}"
    using st(2) by (simp_all add: leaders_inv_def)
  have h: "is_min_heap ?tp" using st(2) full by (simp add: leaders_inv_def)
  have "0 < length ?tp" using R full unfolding i(2) by (simp add: min_def)
  then have tne: "?tp \<noteq> []" by simp
  define cm where "cm = (if st_cutoffs st (length ?ps) = None
      then (st_cutoffs st)(length ?ps \<mapsto> level (hd ?tp)) else st_cutoffs st)"
  have fc: "finalCutoff st = Inr cm"
    using front_nonempty [OF tne] i(1) by (simp add: finalCutoff_def cm_def)
  have dm: "dom cm = insert (length ?ps) (dom (st_cutoffs st))"
    unfolding cm_def by (auto simp: domIff)
  have e: "rankIncoming mh srt s R = Inr (\<lparr>result_top = srt ?tp, result_cutoffs = cm\<rparr>, drained s)"
    unfolding rankIncoming_fold [OF wf] using st(1) fc by simp
  have last: "buffer_minimum_at mh R ?ps (length ?ps) (level (hd ?tp))"
    using st(1) min_heap_hd_Min [OF h tne] by (auto simp: buffer_minimum_at_def)
  have "buffer_minimum_at mh R ?ps k v" if "cm k = Some v" for k v
    using that st(3) last unfolding cm_def by (auto split: if_splits)
  then show ?thesis unfolding e using dm i(3) by simp
qed

section \<open>Admission to the leader buffer\<close>

lemma updateLeaders_full:
  assumes "length tp = R" and "0 < R"
  shows "updateLeaders mh R p tp = Inr (if level (hd tp) < level p then replaceMin tp p else tp)"
proof -
  have "tp \<noteq> []" using assms by auto
  then have "front tp = Inr (hd tp)" by (rule front_nonempty)
  then show ?thesis using assms(1) by (simp add: updateLeaders_def player_greater_def)
qed

lemma rankStep_buffer:
  "rankStep mh R p st = Inr st1 \<Longrightarrow> updateLeaders mh R p (st_topPlayers st) = Inr (st_topPlayers st1)"
  by (auto simp: rankStep_def Let_def split: sum.splits)

lemma buffer_after_inv:
  assumes mh: "make_heap_contract player_greater mh" and R: "0 < R"
  shows "\<exists>st. rankFold mh R (take k ps)
             \<lparr>st_topPlayers = [], st_cutoffs = Map.empty, st_playerCount = 0\<rparr> = Inr st \<and>
           leaders_inv R (take k ps) st \<and> buffer_after mh R ps k = st_topPlayers st"
proof -
  obtain st where "rankFold mh R (take k ps)
      \<lparr>st_topPlayers = [], st_cutoffs = Map.empty, st_playerCount = 0\<rparr> = Inr st"
    "leaders_inv R ([] @ take k ps) st"
    using rankFold_inv [OF mh R leaders_inv_init, of "take k ps"] by blast
  then show ?thesis by (auto simp: buffer_after_def)
qed

text \<open>While the buffer is below the interval every player read is in it.\<close>

lemma buffer_after_filling:
  assumes mh: "make_heap_contract player_greater mh" and R: "0 < R"
    and k: "k \<le> R" "k \<le> length ps"
  shows "mset (buffer_after mh R ps k) = mset (take k ps)"
proof -
  obtain st where st: "leaders_inv R (take k ps) st" "buffer_after mh R ps k = st_topPlayers st"
    using buffer_after_inv [OF mh R, of k ps] by blast
  obtain dropped where d: "mset (take k ps) = mset dropped + mset (st_topPlayers st)"
    using st(1) unfolding leaders_inv_def by blast
  have "length (st_topPlayers st) = min R (length (take k ps))"
    using st(1) by (simp add: leaders_inv_def)
  then have l: "length (st_topPlayers st) = length (take k ps)" using k by simp
  have "length (take k ps) = length dropped + length (st_topPlayers st)"
    using d by (metis mset_append length_append mset_eq_length)
  then have "dropped = []" using l by simp
  then show ?thesis using d st(2) by simp
qed

text \<open>
  Once the buffer is full, the player read next is admitted only when its level is strictly
  above the minimum level of the buffer, which is the level of the root; it then replaces
  the root. Otherwise, and so on a tie with the minimum, the buffer stays as it is.
\<close>

lemma buffer_after_admission:
  assumes mh: "make_heap_contract player_greater mh" and R: "0 < R"
    and k: "R \<le> k" "k < length ps"
  shows "level (hd (buffer_after mh R ps k)) = Min (level ` set (buffer_after mh R ps k)) \<and>
         buffer_after mh R ps (Suc k) =
           (if Min (level ` set (buffer_after mh R ps k)) < level (ps ! k)
            then replaceMin (buffer_after mh R ps k) (ps ! k)
            else buffer_after mh R ps k)"
proof -
  let ?init = "\<lparr>st_topPlayers = [], st_cutoffs = Map.empty, st_playerCount = 0\<rparr>"
  obtain st where st: "rankFold mh R (take k ps) ?init = Inr st" "leaders_inv R (take k ps) st"
    "buffer_after mh R ps k = st_topPlayers st"
    using buffer_after_inv [OF mh R, of k ps] by blast
  let ?tp = "st_topPlayers st"
  have lk: "length (take k ps) = k" using k(2) by simp
  have len: "length ?tp = R" using st(2) k(1) lk by (simp add: leaders_inv_def)
  have heap: "is_min_heap ?tp" using st(2) k(1) lk by (simp add: leaders_inv_def)
  have ne: "?tp \<noteq> []" using len R by auto
  have root: "level (hd ?tp) = Min (level ` set ?tp)" using min_heap_hd_Min [OF heap ne] .
  obtain st1 where st1: "rankStep mh R (ps ! k) st = Inr st1"
    using rankStep_inv [OF mh R st(2), of "ps ! k"] by blast
  have "take (Suc k) ps = take k ps @ [ps ! k]" using k(2) by (rule take_Suc_conv_app_nth)
  then have "rankFold mh R (take (Suc k) ps) ?init = Inr st1"
    using st(1) st1 by (simp add: rankFold_append)
  then have b1: "buffer_after mh R ps (Suc k) = st_topPlayers st1"
    by (simp add: buffer_after_def)
  have "Inr (st_topPlayers st1) = updateLeaders mh R (ps ! k) ?tp"
    using rankStep_buffer [OF st1] by simp
  also have "\<dots> = Inr (if level (hd ?tp) < level (ps ! k) then replaceMin ?tp (ps ! k) else ?tp)"
    using len R by (rule updateLeaders_full)
  finally have "st_topPlayers st1
      = (if level (hd ?tp) < level (ps ! k) then replaceMin ?tp (ps ! k) else ?tp)"
    by simp
  then show ?thesis unfolding b1 st(3) using root by simp
qed

lemma buffer_after_all:
  assumes "rankFold mh R ps \<lparr>st_topPlayers = [], st_cutoffs = Map.empty, st_playerCount = 0\<rparr>
      = Inr st"
  shows "buffer_after mh R ps (length ps) = st_topPlayers st"
  using assms by (simp add: buffer_after_def)

text \<open>The run of the loop on \<open>late_tie_stream\<close> with interval 2, step by step.\<close>

lemma late_tie_step1:
  "rankStep ref_make_min_heap 2 (newPlayer ''a'' 2)
     \<lparr>st_topPlayers = [], st_cutoffs = Map.empty, st_playerCount = 0\<rparr>
   = Inr \<lparr>st_topPlayers = [newPlayer ''a'' 2], st_cutoffs = Map.empty, st_playerCount = 1\<rparr>"
  by (simp add: rankStep_def updateLeaders_def recordCutoff_def front_def player_greater_def
      player_less_def ref_make_min_heap_def replaceMin_def percolateDown.simps smallest_of_def
      swap_def newPlayer_def Let_def)

lemma late_tie_step2:
  "rankStep ref_make_min_heap 2 (newPlayer ''b'' 4)
     \<lparr>st_topPlayers = [newPlayer ''a'' 2], st_cutoffs = Map.empty, st_playerCount = 1\<rparr>
   = Inr \<lparr>st_topPlayers = [newPlayer ''a'' 2, newPlayer ''b'' 4], st_cutoffs = [2 \<mapsto> 2], st_playerCount = 2\<rparr>"
  by (simp add: rankStep_def updateLeaders_def recordCutoff_def front_def player_greater_def
      player_less_def ref_make_min_heap_def replaceMin_def percolateDown.simps smallest_of_def
      swap_def newPlayer_def Let_def del: One_nat_def)

lemma late_tie_step3:
  "rankStep ref_make_min_heap 2 (newPlayer ''c'' 3)
     \<lparr>st_topPlayers = [newPlayer ''a'' 2, newPlayer ''b'' 4], st_cutoffs = [2 \<mapsto> 2], st_playerCount = 2\<rparr>
   = Inr \<lparr>st_topPlayers = [newPlayer ''c'' 3, newPlayer ''b'' 4], st_cutoffs = [2 \<mapsto> 2], st_playerCount = 3\<rparr>"
  by (simp add: rankStep_def updateLeaders_def recordCutoff_def front_def player_greater_def
      player_less_def ref_make_min_heap_def replaceMin_def percolateDown.simps smallest_of_def
      swap_def newPlayer_def Let_def)

lemma late_tie_step4:
  "rankStep ref_make_min_heap 2 (newPlayer ''d'' 3)
     \<lparr>st_topPlayers = [newPlayer ''c'' 3, newPlayer ''b'' 4], st_cutoffs = [2 \<mapsto> 2], st_playerCount = 3\<rparr>
   = Inr \<lparr>st_topPlayers = [newPlayer ''c'' 3, newPlayer ''b'' 4], st_cutoffs = [2 \<mapsto> 2, 4 \<mapsto> 3], st_playerCount = 4\<rparr>"
  by (simp add: rankStep_def updateLeaders_def recordCutoff_def front_def player_greater_def
      player_less_def ref_make_min_heap_def replaceMin_def percolateDown.simps smallest_of_def
      swap_def newPlayer_def Let_def)

lemma late_tie_fold3:
  "rankFold ref_make_min_heap 2 (take 3 late_tie_stream)
      \<lparr>st_topPlayers = [], st_cutoffs = Map.empty, st_playerCount = 0\<rparr>
    = Inr \<lparr>st_topPlayers = [newPlayer ''c'' 3, newPlayer ''b'' 4], st_cutoffs = [2 \<mapsto> 2], st_playerCount = 3\<rparr>"
proof -
  have "take 3 late_tie_stream = [newPlayer ''a'' 2, newPlayer ''b'' 4, newPlayer ''c'' 3]"
    by (simp add: late_tie_stream_def)
  then show ?thesis
    by (simp only: rankFold.simps late_tie_step1 late_tie_step2 late_tie_step3 sum.case)
qed

lemma late_tie_fold4:
  "rankFold ref_make_min_heap 2 late_tie_stream
      \<lparr>st_topPlayers = [], st_cutoffs = Map.empty, st_playerCount = 0\<rparr>
    = Inr \<lparr>st_topPlayers = [newPlayer ''c'' 3, newPlayer ''b'' 4], st_cutoffs = [2 \<mapsto> 2, 4 \<mapsto> 3], st_playerCount = 4\<rparr>"
  unfolding late_tie_stream_def
  by (simp only: rankFold.simps late_tie_step1 late_tie_step2 late_tie_step3 late_tie_step4
      sum.case)

lemma late_tie_result:
  "rankIncoming ref_make_min_heap ref_sort (newVectorPlayerStream late_tie_stream) 2
     = Inr (\<lparr>result_top = [newPlayer ''c'' 3, newPlayer ''b'' 4],
              result_cutoffs = [2 \<mapsto> 2, 4 \<mapsto> 3]\<rparr>,
            \<lparr>stream_players = late_tie_stream, stream_index = 4\<rparr>)"
proof -
  let ?s = "newVectorPlayerStream late_tie_stream"
  have a: "stream_index ?s \<le> length (stream_players ?s)"
    by (simp add: newVectorPlayerStream_def)
  have b: "length (stream_players ?s) < 2 ^ 64"
    by (simp add: newVectorPlayerStream_def late_tie_stream_def)
  have p: "pending ?s = late_tie_stream" by (simp add: pending_def newVectorPlayerStream_def)
  have d: "drained ?s = \<lparr>stream_players = late_tie_stream, stream_index = 4\<rparr>"
    by (simp add: drained_def newVectorPlayerStream_def late_tie_stream_def)
  show ?thesis
    unfolding rankIncoming_fold [OF a b] p d late_tie_fold4
    by (simp add: finalCutoff_def front_def ref_sort_def newPlayer_def)
qed

section \<open>The claims\<close>

subsection \<open>replaceMin\<close>

text \<open>
  C7: for every range and every replacement value the percolation loop of \<open>replaceMin\<close>
  terminates, so \<open>replaceMin\<close> is total. The loop defined as a least fixed point, where a
  run that never ends would be \<open>None\<close>, returns a value from every position of every
  range, and so does \<open>replaceMin\<close> built on it; the value is the one of the function whose
  recursion is justified by the distance of the position from the end of the range.
\<close>

theorem replaceMin_total:
  "percolateLoop h cur = Some (percolateDown h cur) \<and>
   replaceMinLoop h target = Some (replaceMin h target)"
proof -
  have loop: "percolateLoop h cur = Some (percolateDown h cur)" for h cur
  proof (induction h cur rule: percolateDown.induct)
    case (1 h cur)
    show ?case
    proof (cases "smallest_of h cur = cur")
      case True
      then show ?thesis
        by (subst percolateLoop.simps, subst percolateDown.simps) (simp add: Let_def)
    next
      case False
      have "percolateLoop h cur = percolateLoop (swap h cur (smallest_of h cur)) (smallest_of h cur)"
        using False by (subst percolateLoop.simps) (simp add: Let_def)
      also have "\<dots> = Some (percolateDown (swap h cur (smallest_of h cur)) (smallest_of h cur))"
        using "1.IH" [OF refl False] .
      also have "percolateDown (swap h cur (smallest_of h cur)) (smallest_of h cur) = percolateDown h cur"
        using False by (subst (2) percolateDown.simps) (simp add: Let_def)
      finally show ?thesis .
    qed
  qed
  show ?thesis
    using loop [of h cur] loop [of "h[0 := target]" 0]
    by (simp add: replaceMinLoop_def replaceMin_def)
qed

theorem replaceMin_total_witness:
  "replaceMinLoop [newPlayer ''a'' 1, newPlayer ''b'' 4, newPlayer ''c'' 3] (newPlayer ''d'' 7)
   = Some [newPlayer ''c'' 3, newPlayer ''b'' 4, newPlayer ''d'' 7]"
  using replaceMin_total [of "[newPlayer ''a'' 1, newPlayer ''b'' 4, newPlayer ''c'' 3]" 0
      "newPlayer ''d'' 7"]
  by (simp add: replaceMin_def percolateDown.simps smallest_of_def swap_def player_less_def
      Let_def newPlayer_def)

text \<open>
  C5: for every non-empty range that is a min-heap and every replacement value, the range
  after \<open>replaceMin\<close> is a min-heap again, and as a multiset it is the old range with its
  root removed and the replacement added.
\<close>

theorem replaceMin_heap:
  assumes "h \<noteq> []" and "is_min_heap h"
  shows "is_min_heap (replaceMin h target) \<and>
         mset (replaceMin h target) = add_mset target (mset h - {#hd h#})"
  using assms by (simp add: is_min_heap_replaceMin mset_replaceMin)

theorem replaceMin_heap_witness:
  "[newPlayer ''a'' 1, newPlayer ''b'' 4, newPlayer ''c'' 3] \<noteq> [] \<and>
   is_min_heap [newPlayer ''a'' 1, newPlayer ''b'' 4, newPlayer ''c'' 3] \<and>
   replaceMin [newPlayer ''a'' 1, newPlayer ''b'' 4, newPlayer ''c'' 3] (newPlayer ''d'' 7)
     = [newPlayer ''c'' 3, newPlayer ''b'' 4, newPlayer ''d'' 7] \<and>
   is_min_heap [newPlayer ''c'' 3, newPlayer ''b'' 4, newPlayer ''d'' 7] \<and>
   mset [newPlayer ''c'' 3, newPlayer ''b'' 4, newPlayer ''d'' 7]
     = add_mset (newPlayer ''d'' 7)
         (mset [newPlayer ''a'' 1, newPlayer ''b'' 4, newPlayer ''c'' 3]
            - {#hd [newPlayer ''a'' 1, newPlayer ''b'' 4, newPlayer ''c'' 3]#})"
proof -
  let ?h = "[newPlayer ''a'' 1, newPlayer ''b'' 4, newPlayer ''c'' 3]"
  let ?t = "newPlayer ''d'' 7"
  have ne: "?h \<noteq> []" by simp
  have hp: "is_min_heap ?h"
    by (simp add: is_min_heap_def is_heap_by_def player_greater_def upt_rec newPlayer_def)
  have ev: "replaceMin ?h ?t = [newPlayer ''c'' 3, newPlayer ''b'' 4, newPlayer ''d'' 7]"
    by (simp add: replaceMin_def percolateDown.simps smallest_of_def swap_def player_less_def
        Let_def newPlayer_def)
  show ?thesis
    using replaceMin_heap [OF ne hp, of ?t] ne hp unfolding ev by simp
qed

subsection \<open>heapRank and quickSelectRank\<close>

text \<open>
  C6: \<open>heapRank\<close> on a collection and \<open>quickSelectRank\<close> on a copy of it return top subsets
  with the same multiset of levels, both ascending, both of size \<open>length players div 10\<close>.
  The theorem holds for every collection, whatever the C++ library algorithms do within
  their contracts: it needs neither that the collection is non-empty nor that no tie
  straddles the boundary, so it covers the collections of the claim. It gives the levels
  of the two subsets as equal lists, which is more than equal multisets.
\<close>

theorem selectors_agree:
  assumes "make_heap_contract player_less std_make_heap"
    and "pop_heap_contract player_less std_pop_heap"
    and "nth_element_contract std_nth_element"
    and "sort_contract std_sort"
  shows "\<exists>r rest. heapRank std_make_heap std_pop_heap std_sort players = Inr (r, rest) \<and>
           mset (map level (result_top r))
             = mset (map level (result_top (fst (quickSelectRank std_nth_element std_sort players)))) \<and>
           map level (result_top r)
             = map level (result_top (fst (quickSelectRank std_nth_element std_sort players))) \<and>
           sorted (map level (result_top r)) \<and>
           sorted (map level (result_top (fst (quickSelectRank std_nth_element std_sort players)))) \<and>
           length (result_top r) = length players div 10 \<and>
           length (result_top (fst (quickSelectRank std_nth_element std_sort players)))
             = length players div 10"
proof -
  obtain r rest where h: "heapRank std_make_heap std_pop_heap std_sort players = Inr (r, rest)"
    "map level (result_top r)
       = drop (length players - length players div 10) (sort (map level players))"
    "length (result_top r) = length players div 10"
    "sorted (map level (result_top r))"
    using heapRank_ok [OF assms(1) assms(2) assms(4), of players] by blast
  note q = quickSelectRank_ok [OF assms(3) assms(4), of players]
  have e: "map level (result_top r)
      = map level (result_top (fst (quickSelectRank std_nth_element std_sort players)))"
    using h(2) q by simp
  then have "mset (map level (result_top r))
      = mset (map level (result_top (fst (quickSelectRank std_nth_element std_sort players))))"
    by (rule arg_cong)
  then show ?thesis using e h(1,3,4) q by blast
qed

theorem selectors_agree_witness:
  "make_heap_contract player_less ref_make_max_heap \<and>
   pop_heap_contract player_less ref_pop_heap \<and>
   nth_element_contract ref_nth_element \<and>
   sort_contract ref_sort \<and>
   heapRank ref_make_max_heap ref_pop_heap ref_sort sample_players
      = Inr (\<lparr>result_top = [newPlayer ''p'' 12], result_cutoffs = Map.empty\<rparr>,
             map (newPlayer ''p'') [11, 10, 9, 8, 7, 6, 5, 4, 3, 2, 1]) \<and>
   result_top (fst (quickSelectRank ref_nth_element ref_sort sample_players)) = [newPlayer ''p'' 12] \<and>
   length sample_players div 10 = 1"
  using selectors_agree [OF ref_make_max_heap_contract ref_pop_heap_contract
      ref_nth_element_contract ref_sort_contract, of sample_players]
    ref_make_max_heap_contract ref_pop_heap_contract ref_nth_element_contract ref_sort_contract
    ev_heapRank ev_quick
  by (simp add: sample_players_def)

text \<open>
  C9: on a collection of fewer than ten players (the empty one included) \<open>heapRank\<close>
  returns a result, not an error, and its top subset is empty; so is the top subset of
  \<open>quickSelectRank\<close>, which has no failing step at all.
\<close>

theorem small_collections_empty:
  assumes "make_heap_contract player_less std_make_heap"
    and "pop_heap_contract player_less std_pop_heap"
    and "nth_element_contract std_nth_element"
    and "sort_contract std_sort"
    and "length players < 10"
  shows "(\<exists>r rest. heapRank std_make_heap std_pop_heap std_sort players = Inr (r, rest) \<and>
            result_top r = []) \<and>
         result_top (fst (quickSelectRank std_nth_element std_sort players)) = []"
proof -
  have z: "length players div 10 = 0" using assms(5) by simp
  obtain r rest where h: "heapRank std_make_heap std_pop_heap std_sort players = Inr (r, rest)"
    "length (result_top r) = length players div 10"
    using heapRank_ok [OF assms(1) assms(2) assms(4), of players] by blast
  have "length (result_top (fst (quickSelectRank std_nth_element std_sort players)))
      = length players div 10"
    using quickSelectRank_ok [OF assms(3) assms(4), of players] by blast
  then show ?thesis using h z by simp
qed

theorem small_collections_empty_witness:
  "make_heap_contract player_less ref_make_max_heap \<and>
   pop_heap_contract player_less ref_pop_heap \<and>
   nth_element_contract ref_nth_element \<and>
   sort_contract ref_sort \<and>
   length [newPlayer ''a'' 5, newPlayer ''b'' 9, newPlayer ''c'' 2] < 10 \<and>
   heapRank ref_make_max_heap ref_pop_heap ref_sort
       [newPlayer ''a'' 5, newPlayer ''b'' 9, newPlayer ''c'' 2]
     = Inr (\<lparr>result_top = [], result_cutoffs = Map.empty\<rparr>,
            [newPlayer ''b'' 9, newPlayer ''a'' 5, newPlayer ''c'' 2]) \<and>
   result_top (fst (quickSelectRank ref_nth_element ref_sort
       [newPlayer ''a'' 5, newPlayer ''b'' 9, newPlayer ''c'' 2])) = []"
proof -
  let ?ps = "[newPlayer ''a'' 5, newPlayer ''b'' 9, newPlayer ''c'' 2]"
  have l: "length ?ps < 10" by simp
  have ev: "heapRank ref_make_max_heap ref_pop_heap ref_sort ?ps
     = Inr (\<lparr>result_top = [], result_cutoffs = Map.empty\<rparr>,
            [newPlayer ''b'' 9, newPlayer ''a'' 5, newPlayer ''c'' 2])"
    by (simp add: heapRank_def ref_make_max_heap_def ref_sort_def newPlayer_def Let_def)
  show ?thesis
    using small_collections_empty [OF ref_make_max_heap_contract ref_pop_heap_contract
        ref_nth_element_contract ref_sort_contract l]
      ref_make_max_heap_contract ref_pop_heap_contract ref_nth_element_contract
      ref_sort_contract ev
    by simp
qed

text \<open>
  C10: \<open>quickSelectRank\<close> leaves the caller's vector with its size and with the same
  multiset of players, only reordered; \<open>heapRank\<close> leaves it shorter by
  \<open>length players div 10\<close> players, the ones it moved to the top subset.
\<close>

theorem quickSelectRank_keeps_input:
  assumes "make_heap_contract player_less std_make_heap"
    and "pop_heap_contract player_less std_pop_heap"
    and "nth_element_contract std_nth_element"
    and "sort_contract std_sort"
  shows "length (snd (quickSelectRank std_nth_element std_sort players)) = length players \<and>
         mset (snd (quickSelectRank std_nth_element std_sort players)) = mset players \<and>
         (\<exists>r rest. heapRank std_make_heap std_pop_heap std_sort players = Inr (r, rest) \<and>
            length rest = length players - length players div 10 \<and>
            mset rest + mset (result_top r) = mset players)"
proof -
  have m: "mset (snd (quickSelectRank std_nth_element std_sort players)) = mset players"
    using quickSelectRank_ok [OF assms(3) assms(4), of players] by blast
  then have "length (snd (quickSelectRank std_nth_element std_sort players)) = length players"
    by (rule mset_eq_length)
  moreover have "\<exists>r rest. heapRank std_make_heap std_pop_heap std_sort players = Inr (r, rest) \<and>
            length rest = length players - length players div 10 \<and>
            mset rest + mset (result_top r) = mset players"
    using heapRank_ok [OF assms(1) assms(2) assms(4), of players] by blast
  ultimately show ?thesis using m by blast
qed

theorem quickSelectRank_keeps_input_witness:
  "make_heap_contract player_less ref_make_max_heap \<and>
   pop_heap_contract player_less ref_pop_heap \<and>
   nth_element_contract ref_nth_element \<and>
   sort_contract ref_sort \<and>
   length sample_players = 12 \<and>
   snd (quickSelectRank ref_nth_element ref_sort sample_players)
     = map (newPlayer ''p'') [1, 2, 3, 4, 5, 6, 7, 8, 9, 10, 11, 12] \<and>
   mset (snd (quickSelectRank ref_nth_element ref_sort sample_players)) = mset sample_players \<and>
   (case heapRank ref_make_max_heap ref_pop_heap ref_sort sample_players of
      Inl e \<Rightarrow> False
    | Inr (r, rest) \<Rightarrow> length rest = 11 \<and> rest = map (newPlayer ''p'') [11, 10, 9, 8, 7, 6, 5, 4, 3, 2, 1])"
  using quickSelectRank_keeps_input [OF ref_make_max_heap_contract ref_pop_heap_contract
      ref_nth_element_contract ref_sort_contract, of sample_players]
    ref_make_max_heap_contract ref_pop_heap_contract ref_nth_element_contract ref_sort_contract
    ev_heapRank ev_quick
  by (simp add: sample_players_def)

subsection \<open>The stream and rankIncoming\<close>

text \<open>
  C8: \<open>nextPlayer\<close> raises its exhaustion error exactly when the remaining count is zero,
  and \<open>rankIncoming\<close> never ends in that error, whatever the reporting interval and
  the library algorithms. The stream is any state of a \<open>VectorPlayerStream\<close>: its index
  has not passed the size of its vector (the constructor starts it at zero and
  \<open>nextPlayer\<close> advances it only below the size), and the size is one a vector can have.
\<close>

theorem exhaustion_never_triggered:
  assumes "stream_index s \<le> length (stream_players s)" and "length (stream_players s) < 2 ^ 64"
  shows "((\<exists>e. nextPlayer s = Inl e) \<longleftrightarrow> remaining s = 0) \<and>
         (nextPlayer s = Inl StreamExhausted \<longleftrightarrow> remaining s = 0) \<and>
         rankIncoming std_make_heap std_sort s reporting_interval \<noteq> Inl StreamExhausted"
proof -
  have "remaining s = 0 \<longleftrightarrow> length (stream_players s) \<le> stream_index s"
    using remaining_eq [OF assms] by simp
  moreover have "rankIncoming std_make_heap std_sort s reporting_interval \<noteq> Inl StreamExhausted"
    unfolding rankIncoming_fold [OF assms]
    by (auto split: sum.splits dest: rankFold_error finalCutoff_error)
  ultimately show ?thesis by (auto simp: nextPlayer_def)
qed

theorem exhaustion_never_triggered_witness:
  "stream_index \<lparr>stream_players = [newPlayer ''a'' 5, newPlayer ''b'' 3], stream_index = 2\<rparr>
     \<le> length (stream_players \<lparr>stream_players = [newPlayer ''a'' 5, newPlayer ''b'' 3], stream_index = 2\<rparr>) \<and>
   length (stream_players \<lparr>stream_players = [newPlayer ''a'' 5, newPlayer ''b'' 3], stream_index = 2\<rparr>)
     < 2 ^ 64 \<and>
   remaining \<lparr>stream_players = [newPlayer ''a'' 5, newPlayer ''b'' 3], stream_index = 2\<rparr> = 0 \<and>
   nextPlayer \<lparr>stream_players = [newPlayer ''a'' 5, newPlayer ''b'' 3], stream_index = 2\<rparr>
     = Inl StreamExhausted \<and>
   rankIncoming ref_make_min_heap ref_sort
       \<lparr>stream_players = [newPlayer ''a'' 5, newPlayer ''b'' 3], stream_index = 2\<rparr> 3
     \<noteq> Inl StreamExhausted"
proof -
  let ?s = "\<lparr>stream_players = [newPlayer ''a'' 5, newPlayer ''b'' 3], stream_index = 2\<rparr>"
  have a: "stream_index ?s \<le> length (stream_players ?s)" by simp
  have b: "length (stream_players ?s) < 2 ^ 64" by simp
  have c: "nextPlayer ?s = Inl StreamExhausted" by (simp add: nextPlayer_def)
  show ?thesis
    using exhaustion_never_triggered [OF a b, of ref_make_min_heap ref_sort 3] a b c by simp
qed

text \<open>
  C1: on a stream of at least one and fewer than \<open>reporting_interval\<close> players, the one
  entry of \<open>cutoffs\<close> should map the final count to the minimum level consumed. The code
  stores the level of \<open>front()\<close> of a buffer that was never made a heap, which is the first
  player consumed: on the levels 5, 3 with interval 3 the entry is \<open>2 \<mapsto> 5\<close>, and the
  minimum is 3, whatever the library algorithms are. Lemma \<open>rankIncoming_short\<close> gives the
  entry on every such stream.
\<close>

theorem short_stream_cutoff_is_first_level:
  "rankIncoming std_make_heap std_sort
       (newVectorPlayerStream [newPlayer ''a'' 5, newPlayer ''b'' 3]) 3
     = Inr (\<lparr>result_top = std_sort [newPlayer ''a'' 5, newPlayer ''b'' 3],
              result_cutoffs = [2 \<mapsto> 5]\<rparr>,
            \<lparr>stream_players = [newPlayer ''a'' 5, newPlayer ''b'' 3], stream_index = 2\<rparr>) \<and>
   Min (set (map level [newPlayer ''a'' 5, newPlayer ''b'' 3])) = 3"
  by (simp add: rankIncoming_def rankLoop.simps remaining_def nextPlayer_def rankStep_def
      updateLeaders_def recordCutoff_def finalCutoff_def front_def newVectorPlayerStream_def
      newPlayer_def Let_def del: One_nat_def)

text \<open>
  C2: \<open>rankIncoming\<close> should run to completion on every source, the empty one included,
  and read \<open>front()\<close> only of a non-empty buffer. On the empty stream the loop does not
  run, the map has no entry for the count 0, and the code reads \<open>front()\<close> of the empty
  buffer, whatever the library algorithms are.
\<close>

theorem empty_stream_reads_front_of_empty:
  "rankIncoming std_make_heap std_sort (newVectorPlayerStream []) 1 = Inl FrontOfEmpty"
  by (simp add: rankIncoming_def rankLoop.simps remaining_def finalCutoff_def front_def
      newVectorPlayerStream_def)

text \<open>
  C4: the value of \<open>cutoffs\<close> at each key should be the minimum level in the leader buffer
  at that moment. On the levels 4, 9, 2 with interval 5 the only key is the final count 3,
  the buffer holds all three players and was never made a heap, and the value is the
  level 4 of the first player, not the minimum 2. From \<open>reporting_interval\<close> players on,
  the keys and the values are as the claim says (lemma \<open>rankIncoming_cutoffs\<close>).
\<close>

theorem short_stream_cutoff_not_minimum:
  "rankIncoming std_make_heap std_sort
       (newVectorPlayerStream [newPlayer ''a'' 4, newPlayer ''b'' 9, newPlayer ''c'' 2]) 5
     = Inr (\<lparr>result_top = std_sort [newPlayer ''a'' 4, newPlayer ''b'' 9, newPlayer ''c'' 2],
              result_cutoffs = [3 \<mapsto> 4]\<rparr>,
            \<lparr>stream_players = [newPlayer ''a'' 4, newPlayer ''b'' 9, newPlayer ''c'' 2],
               stream_index = 3\<rparr>) \<and>
   Min (set (map level [newPlayer ''a'' 4, newPlayer ''b'' 9, newPlayer ''c'' 2])) = 2"
  by (simp add: rankIncoming_def rankLoop.simps remaining_def nextPlayer_def rankStep_def
      updateLeaders_def recordCutoff_def finalCutoff_def front_def newVectorPlayerStream_def
      newPlayer_def Let_def del: One_nat_def)

text \<open>
  C3, as the spec states it, fails: the top subset should be the \<open>R\<close> highest-levelled
  players with a tie going to the player seen earlier. On \<open>tie_stream\<close> with interval 3
  the players B and C both have level 5 and B is read first; the code keeps C. After the
  sixth player the heap is B, E, C with B at the root, and the seventh player, of level 6,
  replaces the root. The same players are kept with every \<open>make_heap\<close> and \<open>sort\<close> within
  their contracts (lemma \<open>tie_stream_result\<close>).
\<close>

theorem tie_goes_to_later_player:
  "rankIncoming ref_make_min_heap ref_sort (newVectorPlayerStream tie_stream) 3
     = Inr (\<lparr>result_top = [newPlayer ''C'' 5, newPlayer ''F'' 6, newPlayer ''E'' 9],
              result_cutoffs = [3 \<mapsto> 2, 6 \<mapsto> 5, 7 \<mapsto> 5]\<rparr>,
            \<lparr>stream_players = tie_stream, stream_index = 7\<rparr>) \<and>
   spec_top_first_seen 3 tie_stream = [newPlayer ''B'' 5, newPlayer ''F'' 6, newPlayer ''E'' 9] \<and>
   mset [newPlayer ''C'' 5, newPlayer ''F'' 6, newPlayer ''E'' 9] \<noteq> mset (spec_top_first_seen 3 tie_stream)"
proof -
  have "ref_sort [newPlayer ''C'' 5, newPlayer ''E'' 9, newPlayer ''F'' 6] = [newPlayer ''C'' 5, newPlayer ''F'' 6, newPlayer ''E'' 9]"
    by (simp add: ref_sort_def newPlayer_def)
  moreover have "mset [newPlayer ''C'' 5, newPlayer ''F'' 6, newPlayer ''E'' 9] \<noteq> mset [newPlayer ''B'' 5, newPlayer ''F'' 6, newPlayer ''E'' 9]"
    by (simp add: newPlayer_def)
  ultimately show ?thesis
    using tie_stream_result [OF ref_make_min_heap_contract, of ref_sort] ev_spec by simp
qed

text \<open>
  C3, amended: for every stream that still holds at least one player and every reporting
  interval \<open>R\<close> of at least 1, \<open>rankIncoming\<close> returns a result and drains the stream. The
  top subset is ascending by level, has \<open>min R n\<close> players, each of them a player of the
  stream, and its levels are the \<open>min R n\<close> highest levels of the stream; it is the leader
  buffer as the last player left it. The first \<open>R\<close> players are all admitted to the buffer.
  A later player is admitted exactly when its level is strictly greater than the minimum
  level of the buffer, which is the level of the root, and it then replaces the root by
  \<open>replaceMin\<close>; otherwise, and so on an exact tie with the minimum, the buffer is left as
  it is, so a newcomer never displaces a player it ties with. What is left open is which
  of several players of the minimum level already in the buffer is the root that a
  strictly greater newcomer replaces.
\<close>

theorem rankIncoming_top_levels:
  assumes mh: "make_heap_contract player_greater std_make_heap"
    and srt: "sort_contract std_sort"
    and R: "0 < reporting_interval"
    and wf: "stream_index stream \<le> length (stream_players stream)"
      "length (stream_players stream) < 2 ^ 64"
    and ne: "pending stream \<noteq> []"
  shows "\<exists>r. rankIncoming std_make_heap std_sort stream reporting_interval
             = Inr (r, drained stream) \<and>
           sorted (map level (result_top r)) \<and>
           length (result_top r) = min reporting_interval (length (pending stream)) \<and>
           mset (result_top r) \<subseteq># mset (pending stream) \<and>
           map level (result_top r)
             = drop (length (pending stream) - reporting_interval)
                 (sort (map level (pending stream))) \<and>
           mset (result_top r)
             = mset (buffer_after std_make_heap reporting_interval (pending stream)
                       (length (pending stream))) \<and>
           (\<forall>k. k \<le> reporting_interval \<and> k \<le> length (pending stream) \<longrightarrow>
              mset (buffer_after std_make_heap reporting_interval (pending stream) k)
                = mset (take k (pending stream))) \<and>
           (\<forall>k. reporting_interval \<le> k \<and> k < length (pending stream) \<longrightarrow>
              level (hd (buffer_after std_make_heap reporting_interval (pending stream) k))
                = Min (level ` set (buffer_after std_make_heap reporting_interval
                                      (pending stream) k)) \<and>
              buffer_after std_make_heap reporting_interval (pending stream) (Suc k)
                = (if Min (level ` set (buffer_after std_make_heap reporting_interval
                                          (pending stream) k))
                        < level (pending stream ! k)
                   then replaceMin (buffer_after std_make_heap reporting_interval
                                      (pending stream) k) (pending stream ! k)
                   else buffer_after std_make_heap reporting_interval (pending stream) k))"
proof -
  let ?ps = "pending stream"
  let ?init = "\<lparr>st_topPlayers = [], st_cutoffs = Map.empty, st_playerCount = 0\<rparr>"
  obtain st where f: "rankFold std_make_heap reporting_interval ?ps ?init = Inr st"
    and inv: "leaders_inv reporting_interval ([] @ ?ps) st"
    using rankFold_inv [OF mh R leaders_inv_init, of ?ps] by blast
  let ?tp = "st_topPlayers st"
  obtain dropped where d: "mset ?ps = mset dropped + mset ?tp"
    "\<forall>b\<in>set ?tp. \<forall>d\<in>set dropped. level d \<le> level b"
    using inv unfolding leaders_inv_def by auto
  have i: "st_playerCount st = length ?ps"
    "length ?tp = min reporting_interval (length ?ps)"
    using inv unfolding leaders_inv_def by auto
  have "0 < length ?ps" using ne by simp
  then have "0 < length ?tp" using R unfolding i(2) by (simp add: min_def)
  then have tne: "?tp \<noteq> []" by simp
  define cm where "cm = (if st_cutoffs st (length ?ps) = None
      then (st_cutoffs st)(length ?ps \<mapsto> level (hd ?tp)) else st_cutoffs st)"
  have fc: "finalCutoff st = Inr cm"
    using front_nonempty [OF tne] i(1) by (simp add: finalCutoff_def cm_def)
  have sorted_top: "mset (std_sort ?tp) = mset ?tp" "sorted (map level (std_sort ?tp))"
    using srt by (simp_all add: sort_contract_def)
  have a: "map level (std_sort ?tp) = drop (length ?ps - length ?tp) (sort (map level ?ps))"
    using top_levels [OF d sorted_top] .
  have "length ?ps - length ?tp = length ?ps - reporting_interval"
    using i(2) by (simp add: min_def)
  then have a1: "map level (std_sort ?tp)
      = drop (length ?ps - reporting_interval) (sort (map level ?ps))"
    using a by simp
  have b: "length (std_sort ?tp) = min reporting_interval (length ?ps)"
    using mset_eq_length [OF sorted_top(1)] i(2) by simp
  have c: "mset (std_sort ?tp) \<subseteq># mset ?ps" using sorted_top(1) d(1) by simp
  have e: "rankIncoming std_make_heap std_sort stream reporting_interval
      = Inr (\<lparr>result_top = std_sort ?tp, result_cutoffs = cm\<rparr>, drained stream)"
    unfolding rankIncoming_fold [OF wf] using f fc by simp
  have g: "mset (std_sort ?tp)
      = mset (buffer_after std_make_heap reporting_interval ?ps (length ?ps))"
    using sorted_top(1) buffer_after_all [OF f] by simp
  have filling: "\<forall>k. k \<le> reporting_interval \<and> k \<le> length ?ps \<longrightarrow>
      mset (buffer_after std_make_heap reporting_interval ?ps k) = mset (take k ?ps)"
    using buffer_after_filling [OF mh R] by blast
  have admission: "\<forall>k. reporting_interval \<le> k \<and> k < length ?ps \<longrightarrow>
      level (hd (buffer_after std_make_heap reporting_interval ?ps k))
        = Min (level ` set (buffer_after std_make_heap reporting_interval ?ps k)) \<and>
      buffer_after std_make_heap reporting_interval ?ps (Suc k)
        = (if Min (level ` set (buffer_after std_make_heap reporting_interval ?ps k))
                < level (?ps ! k)
           then replaceMin (buffer_after std_make_heap reporting_interval ?ps k) (?ps ! k)
           else buffer_after std_make_heap reporting_interval ?ps k)"
    using buffer_after_admission [OF mh R] by blast
  define r0 where "r0 = \<lparr>result_top = std_sort ?tp, result_cutoffs = cm\<rparr>"
  have rt: "std_sort ?tp = result_top r0" by (simp add: r0_def)
  have e0: "rankIncoming std_make_heap std_sort stream reporting_interval = Inr (r0, drained stream)"
    using e by (simp add: r0_def)
  show ?thesis
    using e0 sorted_top(2) b c a1 g filling admission unfolding rt by blast
qed

theorem rankIncoming_top_levels_witness:
  "make_heap_contract player_greater ref_make_min_heap \<and>
   sort_contract ref_sort \<and>
   (0::nat) < 2 \<and>
   stream_index (newVectorPlayerStream late_tie_stream)
     \<le> length (stream_players (newVectorPlayerStream late_tie_stream)) \<and>
   length (stream_players (newVectorPlayerStream late_tie_stream)) < 2 ^ 64 \<and>
   pending (newVectorPlayerStream late_tie_stream) = late_tie_stream \<and>
   late_tie_stream \<noteq> [] \<and>
   rankIncoming ref_make_min_heap ref_sort (newVectorPlayerStream late_tie_stream) 2
     = Inr (\<lparr>result_top = [newPlayer ''c'' 3, newPlayer ''b'' 4],
              result_cutoffs = [2 \<mapsto> 2, 4 \<mapsto> 3]\<rparr>,
            \<lparr>stream_players = late_tie_stream, stream_index = 4\<rparr>) \<and>
   map level [newPlayer ''c'' 3, newPlayer ''b'' 4]
     = drop (length late_tie_stream - 2) (sort (map level late_tie_stream)) \<and>
   buffer_after ref_make_min_heap 2 late_tie_stream 3 = [newPlayer ''c'' 3, newPlayer ''b'' 4] \<and>
   late_tie_stream ! 3 = newPlayer ''d'' 3 \<and>
   Min (level ` set [newPlayer ''c'' 3, newPlayer ''b'' 4]) = 3 \<and>
   buffer_after ref_make_min_heap 2 late_tie_stream (Suc 3)
     = [newPlayer ''c'' 3, newPlayer ''b'' 4]"
proof -
  let ?s = "newVectorPlayerStream late_tie_stream"
  have a: "stream_index ?s \<le> length (stream_players ?s)"
    by (simp add: newVectorPlayerStream_def)
  have b: "length (stream_players ?s) < 2 ^ 64"
    by (simp add: newVectorPlayerStream_def late_tie_stream_def)
  have p: "pending ?s = late_tie_stream" by (simp add: pending_def newVectorPlayerStream_def)
  have n: "pending ?s \<noteq> []" unfolding p by (simp add: late_tie_stream_def)
  have z: "(0::nat) < 2" by simp
  have b3: "buffer_after ref_make_min_heap 2 late_tie_stream 3
      = [newPlayer ''c'' 3, newPlayer ''b'' 4]"
    by (simp add: buffer_after_def late_tie_fold3)
  have d3: "late_tie_stream ! 3 = newPlayer ''d'' 3" by (simp add: late_tie_stream_def)
  have m: "Min (level ` set [newPlayer ''c'' 3, newPlayer ''b'' 4]) = 3"
    by (simp add: newPlayer_def)
  have k: "(2::nat) \<le> 3 \<and> 3 < length late_tie_stream" by (simp add: late_tie_stream_def)
  obtain r where r: "rankIncoming ref_make_min_heap ref_sort ?s 2 = Inr (r, drained ?s)"
    and adm: "\<forall>k. 2 \<le> k \<and> k < length (pending ?s) \<longrightarrow>
        level (hd (buffer_after ref_make_min_heap 2 (pending ?s) k))
          = Min (level ` set (buffer_after ref_make_min_heap 2 (pending ?s) k)) \<and>
        buffer_after ref_make_min_heap 2 (pending ?s) (Suc k)
          = (if Min (level ` set (buffer_after ref_make_min_heap 2 (pending ?s) k))
                  < level (pending ?s ! k)
             then replaceMin (buffer_after ref_make_min_heap 2 (pending ?s) k) (pending ?s ! k)
             else buffer_after ref_make_min_heap 2 (pending ?s) k)"
    using rankIncoming_top_levels [OF ref_make_min_heap_contract ref_sort_contract z a b n]
    by blast
  have "buffer_after ref_make_min_heap 2 late_tie_stream (Suc 3)
      = (if Min (level ` set (buffer_after ref_make_min_heap 2 late_tie_stream 3))
              < level (late_tie_stream ! 3)
         then replaceMin (buffer_after ref_make_min_heap 2 late_tie_stream 3) (late_tie_stream ! 3)
         else buffer_after ref_make_min_heap 2 late_tie_stream 3)"
    using adm k unfolding p by blast
  then have b4: "buffer_after ref_make_min_heap 2 late_tie_stream (Suc 3)
      = [newPlayer ''c'' 3, newPlayer ''b'' 4]"
    unfolding b3 d3 m by (simp add: level_newPlayer)
  have l: "map level [newPlayer ''c'' 3, newPlayer ''b'' 4]
      = drop (length late_tie_stream - 2) (sort (map level late_tie_stream))"
    by (simp add: late_tie_stream_def newPlayer_def)
  show ?thesis
    using ref_make_min_heap_contract ref_sort_contract a b p late_tie_result b3 d3 m b4 l
    by (simp add: late_tie_stream_def)
qed

end
